theory Spec2Isabelle
  imports Main
begin

section \<open>Syntax trees\<close>

text \<open>
  The analyzer consumes the syntax trees of luaparse. Only the node kinds and the fields
  that \<^verbatim>\<open>analyzer.ts\<close> and \<^verbatim>\<open>lua-block.ts\<close> inspect are kept. A field that
  luaparse types as \<^verbatim>\<open>Identifier\<close> is the identifier's name; the parameters of a
  function are \<^verbatim>\<open>Identifier | VarargLiteral\<close>. A string literal has a \<^verbatim>\<open>value\<close>
  (which luaparse leaves \<^verbatim>\<open>null\<close> under its default encoding mode) and its \<^verbatim>\<open>raw\<close>
  source text, quotes included.
\<close>

datatype parameter = ParamIdentifier string | ParamVararg

datatype expression =
    Identifier string
  | StringLiteral "string option" string
  | NumericLiteral string
  | BooleanLiteral bool
  | NilLiteral
  | VarargLiteral
  | MemberExpression expression string
  | IndexExpression expression expression
  | CallExpression expression "expression list"
  | TableCallExpression expression expression
  | StringCallExpression expression expression
  | TableConstructorExpression "tablefield list"
  | FunctionExpression funcdecl
  | UnaryExpression string expression
  | BinaryExpression string expression expression
  | LogicalExpression string expression expression
and tablefield =
    TableKey expression expression
  | TableKeyString string expression
  | TableValue expression
and funcdecl =
    FunctionDeclaration "expression option" bool "parameter list" "statement list"
and statement =
    LocalStatement "string list" "expression list"
  | AssignmentStatement "expression list" "expression list"
  | CallStatement expression
  | ReturnStatement "expression list"
  | IfStatement "clause list"
  | FunctionStatement funcdecl
  | DoStatement "statement list"
  | WhileStatement expression "statement list"
  | RepeatStatement expression "statement list"
  | ForNumericStatement string expression expression "expression option" "statement list"
  | ForGenericStatement "string list" "expression list" "statement list"
  | BreakStatement
  | LabelStatement string
  | GotoStatement string
and clause =
    IfClause expression "statement list"
  | ElseifClause expression "statement list"
  | ElseClause "statement list"

text \<open>
  \<^verbatim>\<open>LuaBlockNode\<close> of \<^verbatim>\<open>types.ts\<close>: the nodes a scope block can wrap. A
  \<^verbatim>\<open>FunctionDeclaration\<close> node is the same object whether it stands as a statement
  (\<open>FunctionStatement\<close>) or as an expression (\<open>FunctionExpression\<close>).
\<close>

datatype LuaBlockNode =
    Chunk "statement list"
  | FunctionNode funcdecl
  | ClauseNode clause
  | DoNode "statement list"
  | WhileNode expression "statement list"
  | RepeatNode expression "statement list"
  | ForNumericNode string expression expression "expression option" "statement list"
  | ForGenericNode "string list" "expression list" "statement list"

fun clauseBody :: "clause \<Rightarrow> statement list" where
  "clauseBody (IfClause c b) = b"
| "clauseBody (ElseifClause c b) = b"
| "clauseBody (ElseClause b) = b"

fun nodeBody :: "LuaBlockNode \<Rightarrow> statement list" where
  "nodeBody (Chunk b) = b"
| "nodeBody (FunctionNode (FunctionDeclaration ident isLocal params b)) = b"
| "nodeBody (ClauseNode c) = clauseBody c"
| "nodeBody (DoNode b) = b"
| "nodeBody (WhileNode c b) = b"
| "nodeBody (RepeatNode c b) = b"
| "nodeBody (ForNumericNode v s e st b) = b"
| "nodeBody (ForGenericNode vs its b) = b"

section \<open>Scope blocks and file units\<close>

datatype AnalysisPass = DependencyResolution | TypeResolution

datatype LuaGameSubdirectory = Shared | Server | Client

datatype LuaAssignmentType =
    T_local | T_global | T_local_reassign | T_set_field
  | T_parameter | T_generic_for | T_numeric_for

record LuaAssignment =
  assignTypes :: "LuaAssignmentType list"
  lhs :: "expression list"
  rhs :: "expression option list"

record LuaLocal =
  localName :: string
  assignments :: "LuaAssignment list"

text \<open>
  An element of a block is an assignment record, a call record (callee and arguments)
  or a child block. Blocks are objects that are shared and mutated through several
  references (the work stack, the parent link, the child list), so a file keeps its
  blocks in a store, \<open>blocks\<close>, and a reference to a block is its address there.
  Address 0 is the file itself: \<^verbatim>\<open>LuaFile extends LuaBlock\<close>.
\<close>

datatype LuaElement =
    AssignmentElement LuaAssignment
  | CallElement expression "expression list"
  | BlockElement nat

record LuaBlock =
  node :: LuaBlockNode
  parent :: "nat option"
  children :: "nat list"
  locals :: "string \<Rightarrow> LuaLocal option"
  elements :: "LuaElement list"
  returns :: "statement list"

text \<open>
  A JavaScript \<^verbatim>\<open>Set<string>\<close> iterates in insertion order, and the resolver depends on
  that order (the first setter, the first alias), so a set of strings is a list without
  repetition: \<open>setAdd\<close> is \<^verbatim>\<open>Set.prototype.add\<close>, \<open>setDelete\<close> is
  \<^verbatim>\<open>Set.prototype.delete\<close>.
\<close>

definition setAdd :: "string \<Rightarrow> string list \<Rightarrow> string list" where
  "setAdd x xs = (if x \<in> set xs then xs else xs @ [x])"

definition setDelete :: "string \<Rightarrow> string list \<Rightarrow> string list" where
  "setDelete x xs = filter (\<lambda>y. y \<noteq> x) xs"

record LuaFile =
  name :: string
  subdirectory :: LuaGameSubdirectory
  globalsSet :: "string list"
  globalDependencies :: "string list"
  fileDependencies :: "string list"
  blocks :: "LuaBlock list"

definition updBlock :: "nat \<Rightarrow> (LuaBlock \<Rightarrow> LuaBlock) \<Rightarrow> LuaFile \<Rightarrow> LuaFile" where
  "updBlock i f file = file\<lparr>blocks := (blocks file)[i := f (blocks file ! i)]\<rparr>"

subsection \<open>lua-file.ts\<close>

text \<open>The analyzer's current pass, \<^verbatim>\<open>this.analyzer.pass\<close>, is the first argument.\<close>

definition addFileDependency :: "AnalysisPass \<Rightarrow> string \<Rightarrow> LuaFile \<Rightarrow> LuaFile" where
  "addFileDependency p nm file =
     (if p = DependencyResolution
      then file\<lparr>fileDependencies := setAdd nm (fileDependencies file)\<rparr>
      else file)"

definition addGlobalDependency :: "AnalysisPass \<Rightarrow> string \<Rightarrow> LuaFile \<Rightarrow> LuaFile" where
  "addGlobalDependency p nm file =
     (if p = DependencyResolution
      then file\<lparr>globalDependencies := setAdd nm (globalDependencies file)\<rparr>
      else file)"

definition addGlobalSet :: "AnalysisPass \<Rightarrow> string \<Rightarrow> LuaFile \<Rightarrow> LuaFile" where
  "addGlobalSet p nm file =
     (if p = DependencyResolution
      then file\<lparr>globalsSet := setAdd nm (globalsSet file)\<rparr>
      else file)"

text \<open>
  \<^verbatim>\<open>cleanup\<close> removes every global the file sets from the globals it depends on, then
  resets the intermediate lists of the file's own block. The blocks that were its
  descendants stay in the store, unreachable.
\<close>

definition cleanup :: "LuaFile \<Rightarrow> LuaFile" where
  "cleanup file =
     updBlock 0 (\<lambda>b. b\<lparr>parent := None, children := [], elements := [], returns := [],
                        locals := (\<lambda>_. None)\<rparr>)
       (file\<lparr>globalDependencies := fold setDelete (globalsSet file) (globalDependencies file)\<rparr>)"

subsection \<open>lua-block.ts\<close>

text \<open>
  \<^verbatim>\<open>locals\<close> is a plain object, \<^verbatim>\<open>{}\<close>, used as a dictionary, so reading
  \<^verbatim>\<open>locals[name]\<close> also answers for the properties that every object inherits from
  \<^verbatim>\<open>Object.prototype\<close>: for these names the value read is a function (for
  \<^verbatim>\<open>__proto__\<close> the prototype object itself), which is truthy and is not a
  \<^verbatim>\<open>LuaLocal\<close>. Assigning \<^verbatim>\<open>locals[name] = local\<close> creates an own property that
  hides the inherited one. The one exception is the name \<^verbatim>\<open>__proto__\<close>, an accessor:
  assigning to it makes \<^verbatim>\<open>local\<close> the prototype of \<^verbatim>\<open>locals\<close>. Reading
  \<^verbatim>\<open>locals['__proto__']\<close> then yields \<^verbatim>\<open>local\<close>, as for any other bound name, so the
  map \<open>locals\<close> keeps it under that key; but from then on \<^verbatim>\<open>locals\<close> also inherits
  the two properties of \<^verbatim>\<open>local\<close>, \<^verbatim>\<open>name\<close> (a non-empty string) and
  \<^verbatim>\<open>assignments\<close> (an array), both truthy.
\<close>

definition objectPrototypeNames :: "string list" where
  "objectPrototypeNames =
     [''constructor'', ''__defineGetter__'', ''__defineSetter__'', ''hasOwnProperty'',
      ''__lookupGetter__'', ''__lookupSetter__'', ''isPrototypeOf'', ''propertyIsEnumerable'',
      ''toString'', ''valueOf'', ''__proto__'', ''toLocaleString'']"

text \<open>
  What \<^verbatim>\<open>getLocal\<close> can return: a reference to the \<^verbatim>\<open>LuaLocal\<close> object bound to a
  name in a block (the address of the block and the name), or an inherited value.
\<close>

datatype LocalRef = LocalAt nat string | Inherited

definition readLocals :: "LuaBlock \<Rightarrow> nat \<Rightarrow> string \<Rightarrow> LocalRef option" where
  "readLocals b i nm =
     (if locals b nm \<noteq> None then Some (LocalAt i nm)
      else if nm \<in> set objectPrototypeNames
              \<or> (locals b ''__proto__'' \<noteq> None \<and> nm \<in> set [''name'', ''assignments''])
           then Some Inherited
           else None)"

text \<open>
  \<^verbatim>\<open>getLocal\<close> walks the parent links from a block outwards and returns the first
  truthy \<^verbatim>\<open>locals[name]\<close>. A parent is always constructed before its children, so its
  address is the smaller one; the test \<open>p < i\<close> makes that explicit and the walk a
  terminating recursion.
\<close>

function getLocal :: "LuaBlock list \<Rightarrow> nat \<Rightarrow> string \<Rightarrow> LocalRef option" where
  "getLocal bs i nm =
     (if i < length bs
      then (case readLocals (bs ! i) i nm of
              Some r \<Rightarrow> Some r
            | None \<Rightarrow>
                (case parent (bs ! i) of
                   None \<Rightarrow> None
                 | Some p \<Rightarrow> if p < i then getLocal bs p nm else None))
      else None)"
  by pat_completeness auto
termination
  by (relation "measure (\<lambda>(bs, i, nm). i)") auto

declare getLocal.simps [simp del]

function getTopAncestor :: "LuaBlock list \<Rightarrow> nat \<Rightarrow> nat" where
  "getTopAncestor bs i =
     (if i < length bs
      then (case parent (bs ! i) of
              None \<Rightarrow> i
            | Some p \<Rightarrow> if p < i then getTopAncestor bs p else i)
      else i)"
  by pat_completeness auto
termination
  by (relation "measure (\<lambda>(bs, i). i)") auto

declare getTopAncestor.simps [simp del]

definition addChild :: "nat \<Rightarrow> nat \<Rightarrow> LuaFile \<Rightarrow> LuaFile" where
  "addChild this child file =
     updBlock this (\<lambda>b. b\<lparr>children := children b @ [child],
                           elements := elements b @ [BlockElement child]\<rparr>)
       (updBlock child (\<lambda>b. b\<lparr>parent := Some this\<rparr>) file)"

fun paramNames :: "parameter list \<Rightarrow> string list" where
  "paramNames [] = []"
| "paramNames (ParamVararg # ps) = paramNames ps"
| "paramNames (ParamIdentifier n # ps) = n # paramNames ps"

definition bindLocal :: "LuaAssignment \<Rightarrow> string \<Rightarrow> LuaBlock \<Rightarrow> LuaBlock" where
  "bindLocal a nm b =
     b\<lparr>locals := (locals b)(nm \<mapsto> \<lparr>localName = nm, assignments = [a]\<rparr>)\<rparr>"

definition addBlockLocals ::
  "nat \<Rightarrow> parameter list \<Rightarrow> expression option list \<Rightarrow> LuaAssignmentType \<Rightarrow> bool
    \<Rightarrow> LuaFile \<Rightarrow> LuaFile" where
  "addBlockLocals this expressions rs ty addSelf file =
     (let expr = (if addSelf then [''self''] else []) @ paramNames expressions;
          assignment = \<lparr>assignTypes = map (\<lambda>_. ty) expr, lhs = map Identifier expr, rhs = rs\<rparr>
      in updBlock this (\<lambda>b. b\<lparr>elements := elements b @ [AssignmentElement assignment]\<rparr>)
           (updBlock this (fold (bindLocal assignment) expr) file))"

text \<open>
  \<^verbatim>\<open>local.assignments.push(assignment)\<close> on what \<^verbatim>\<open>getLocal\<close> returned. An inherited
  value has no \<^verbatim>\<open>assignments\<close>, so there the push throws a \<^verbatim>\<open>TypeError\<close>. Nothing
  else in the walk of a file can throw, so a function of the walk returns an option, and
  \<open>None\<close> is that exception.
\<close>

definition pushHistory :: "LuaAssignment \<Rightarrow> LocalRef \<Rightarrow> LuaFile \<Rightarrow> LuaFile option" where
  "pushHistory a r file =
     (case r of
        Inherited \<Rightarrow> None
      | LocalAt owner nm \<Rightarrow>
          Some (updBlock owner
            (\<lambda>b. case locals b nm of
                    None \<Rightarrow> b
                  | Some l \<Rightarrow> b\<lparr>locals := (locals b)(nm \<mapsto> l\<lparr>assignments := assignments l @ [a]\<rparr>)\<rparr>)
            file))"

text \<open>
  \<^verbatim>\<open>forEach f xs\<close> is the loop \<^verbatim>\<open>for (const x of xs) f(x)\<close> over a body that may
  throw.
\<close>

fun forEach :: "('a \<Rightarrow> 's \<Rightarrow> 's option) \<Rightarrow> 'a list \<Rightarrow> 's \<Rightarrow> 's option" where
  "forEach f [] s = Some s"
| "forEach f (x # xs) s = Option.bind (f x s) (forEach f xs)"

text \<open>
  In the dependency pass the loop over \<^verbatim>\<open>lhs\<close> of \<^verbatim>\<open>addLocalAssignment\<close> returns
  from inside its first iteration.
\<close>

definition addLocalAssignment ::
  "AnalysisPass \<Rightarrow> nat \<Rightarrow> string list \<Rightarrow> expression option list \<Rightarrow> LocalRef option
    \<Rightarrow> LuaFile \<Rightarrow> LuaFile option" where
  "addLocalAssignment p this ls rs existingLocal file =
     (if p = DependencyResolution \<and> ls \<noteq> []
      then Some (updBlock this
             (\<lambda>b. b\<lparr>locals := (locals b)(hd ls \<mapsto> \<lparr>localName = hd ls, assignments = []\<rparr>)\<rparr>) file)
      else
        (let assignment = \<lparr>assignTypes = map (\<lambda>_. T_local) ls, lhs = map Identifier ls, rhs = rs\<rparr>
         in (case existingLocal of
               Some r \<Rightarrow>
                 if length ls = 1 \<and> length rs = 1
                 then (let assignment' = assignment\<lparr>assignTypes := [T_local_reassign]\<rparr>
                       in map_option
                            (updBlock this
                               (\<lambda>b. b\<lparr>elements := elements b @ [AssignmentElement assignment']\<rparr>))
                            (pushHistory assignment' r file))
                 else Some (updBlock this
                        (\<lambda>b. b\<lparr>elements := elements b @ [AssignmentElement assignment]\<rparr>)
                        (updBlock this (fold (bindLocal assignment) ls) file))
             | None \<Rightarrow>
                 Some (updBlock this
                   (\<lambda>b. b\<lparr>elements := elements b @ [AssignmentElement assignment]\<rparr>)
                   (updBlock this (fold (bindLocal assignment) ls) file)))))"


text \<open>
  \<^verbatim>\<open>addAssignment\<close> creates one record and then visits the targets in order. The
  record is one object, shared by the element list and by every history it is pushed to,
  so each of them ends up holding the record with its final tags. Neither the tags nor
  the lookups depend on the histories, so the model computes the tags first.
  \<^verbatim>\<open>getTopAncestor()\<close> is the file the store belongs to (\<open>getTopAncestor_root\<close> below),
  whose sets are fields of the \<open>LuaFile\<close> record.
\<close>

definition assignTypeOf :: "LuaBlock list \<Rightarrow> nat \<Rightarrow> expression \<Rightarrow> LuaAssignmentType" where
  "assignTypeOf bs this left =
     (case left of
        Identifier nm \<Rightarrow> (case getLocal bs this nm of Some r \<Rightarrow> T_local_reassign | None \<Rightarrow> T_global)
      | _ \<Rightarrow> T_set_field)"

definition assignTarget ::
  "AnalysisPass \<Rightarrow> nat \<Rightarrow> LuaAssignment \<Rightarrow> expression \<Rightarrow> LuaFile \<Rightarrow> LuaFile option" where
  "assignTarget p this assignment left file =
     (case left of
        Identifier nm \<Rightarrow>
          (case getLocal (blocks file) this nm of
             Some r \<Rightarrow>
               if p \<noteq> DependencyResolution then pushHistory assignment r file else Some file
           | None \<Rightarrow> Some (addGlobalSet p nm file))
      | _ \<Rightarrow> Some file)"

definition addAssignment ::
  "AnalysisPass \<Rightarrow> nat \<Rightarrow> expression list \<Rightarrow> expression option list \<Rightarrow> LuaFile \<Rightarrow> LuaFile option" where
  "addAssignment p this ls rs file =
     (let assignment = \<lparr>assignTypes = map (assignTypeOf (blocks file) this) ls, lhs = ls, rhs = rs\<rparr>
      in map_option
           (\<lambda>file'. if p \<noteq> DependencyResolution
                    then updBlock this
                           (\<lambda>b. b\<lparr>elements := elements b @ [AssignmentElement assignment]\<rparr>) file'
                    else file')
           (forEach (assignTarget p this assignment) ls file))"

definition addCall ::
  "AnalysisPass \<Rightarrow> nat \<Rightarrow> expression \<Rightarrow> expression list \<Rightarrow> LuaFile \<Rightarrow> LuaFile" where
  "addCall p this base args file =
     (if p = DependencyResolution then file
      else updBlock this (\<lambda>b. b\<lparr>elements := elements b @ [CallElement base args]\<rparr>) file)"

definition addReturn :: "AnalysisPass \<Rightarrow> nat \<Rightarrow> statement \<Rightarrow> LuaFile \<Rightarrow> LuaFile" where
  "addReturn p this stmt file =
     (if p = DependencyResolution then file
      else updBlock this (\<lambda>b. b\<lparr>returns := returns b @ [stmt]\<rparr>) file)"

text \<open>
  The constructor of \<^verbatim>\<open>LuaBlock\<close>: the new block is allocated at the end of the store
  and its address is returned. \<^verbatim>\<open>this.getLocal\<close> for a local function runs before
  \<^verbatim>\<open>parent.addChild(this)\<close> has set the parent link, so it only sees the parameters.
\<close>

definition emptyBlock :: "LuaBlockNode \<Rightarrow> LuaBlock" where
  "emptyBlock nd =
     \<lparr>node = nd, parent = None, children = [], locals = (\<lambda>_. None), elements = [], returns = []\<rparr>"

fun isMemberExpression :: "expression option \<Rightarrow> bool" where
  "isMemberExpression (Some (MemberExpression b m)) = True"
| "isMemberExpression _ = False"

definition constructLocals ::
  "AnalysisPass \<Rightarrow> nat \<Rightarrow> LuaBlockNode \<Rightarrow> nat option \<Rightarrow> LuaFile \<Rightarrow> LuaFile option" where
  "constructLocals p this nd par file =
     (case nd of
        FunctionNode fd \<Rightarrow>
          (case fd of FunctionDeclaration ident isLocal params body \<Rightarrow>
             (let file' = addBlockLocals this params [] T_parameter (isMemberExpression ident) file
              in (case (par, ident) of
                    (Some pr, Some (Identifier nm)) \<Rightarrow>
                      if isLocal
                      then addLocalAssignment p pr [nm] [Some (FunctionExpression fd)]
                             (getLocal (blocks file') this nm) file'
                      else Some file'
                  | _ \<Rightarrow> Some file')))
      | ForGenericNode vars iters body \<Rightarrow>
          Some (addBlockLocals this (map ParamIdentifier vars) (map Some iters) T_generic_for False file)
      | ForNumericNode v s e st body \<Rightarrow>
          Some (addBlockLocals this [ParamIdentifier v] [Some s, Some e, st] T_numeric_for False file)
      | _ \<Rightarrow> Some file)"

definition newLuaBlock ::
  "AnalysisPass \<Rightarrow> LuaBlockNode \<Rightarrow> nat option \<Rightarrow> LuaFile \<Rightarrow> (nat \<times> LuaFile) option" where
  "newLuaBlock p nd par file =
     (let this = length (blocks file)
      in map_option
           (\<lambda>file'. (this, case par of Some pr \<Rightarrow> addChild pr this file' | None \<Rightarrow> file'))
           (constructLocals p this nd par (file\<lparr>blocks := blocks file @ [emptyBlock nd]\<rparr>)))"

definition newLuaFile :: "statement list \<Rightarrow> LuaGameSubdirectory \<Rightarrow> string \<Rightarrow> LuaFile" where
  "newLuaFile tree subdir nm =
     \<lparr>name = nm, subdirectory = subdir, globalsSet = [], globalDependencies = [],
      fileDependencies = [], blocks = [emptyBlock (Chunk tree)]\<rparr>"

section \<open>The analyzer (analyzer.ts)\<close>

text \<open>
  The process-wide state of an \<^verbatim>\<open>Analyzer\<close> between files: the pass, the diagnostics,
  and the two tables. \<^verbatim>\<open>globalSetters\<close> and \<^verbatim>\<open>fileAliases\<close> are
  \<^verbatim>\<open>Record<string, Set<string>>\<close>; the code never tells a missing entry from an empty
  set, so they are total functions into lists, \<open>[]\<close> for a missing entry. (A JavaScript
  object also answers for the property names it inherits, such as \<^verbatim>\<open>constructor\<close>;
  Lua names and file identities are assumed not to be among them.)
\<close>

record Analyzer =
  pass :: AnalysisPass
  errors :: "string list"
  globalSetters :: "string \<Rightarrow> string list"
  fileAliases :: "string \<Rightarrow> string list"

subsection \<open>The scope walk\<close>


text \<open>
  While a file is walked the analyzer holds its pass, the file being walked
  (\<^verbatim>\<open>curFileBlock\<close>) and the work stack of pending blocks. A stack entry is the address
  of the block together with the block's syntax node, which never changes.
\<close>

record Walk =
  pass :: AnalysisPass
  curFileBlock :: LuaFile
  stack :: "(nat \<times> LuaBlockNode) list"

definition endsWith :: "string \<Rightarrow> string \<Rightarrow> bool" where
  "endsWith suffix s = (length suffix \<le> length s \<and> drop (length s - length suffix) s = suffix)"

definition getFileIdentifier :: "string \<Rightarrow> string" where
  "getFileIdentifier nm =
     map (\<lambda>c. if c = CHR 0x5C \<or> c = CHR ''.'' then CHR ''/'' else c)
       (if endsWith ''.lua'' nm then take (length nm - 4) nm else nm)"

definition addGlobalReference :: "string \<Rightarrow> Walk \<Rightarrow> Walk" where
  "addGlobalReference nm w = w\<lparr>curFileBlock := addGlobalDependency (pass w) nm (curFileBlock w)\<rparr>"

text \<open>
  \<^verbatim>\<open>Array.prototype.at(1)\<close> is the element at index 1, \<^verbatim>\<open>undefined\<close> when the array is
  shorter. \<^verbatim>\<open>raw.slice(1, -1)\<close> drops the first and the last character. The empty
  string and \<^verbatim>\<open>null\<close> are falsy.
\<close>

definition at1 :: "'a list \<Rightarrow> 'a option" where
  "at1 xs = (if 1 < length xs then Some (xs ! 1) else None)"

definition requireArgument :: "expression \<Rightarrow> expression option" where
  "requireArgument e =
     (case e of
        StringCallExpression base arg \<Rightarrow> if base = Identifier ''require'' then Some arg else None
      | CallExpression base args \<Rightarrow> if base = Identifier ''require'' then at1 args else None
      | _ \<Rightarrow> None)"

definition requireName :: "expression \<Rightarrow> string option" where
  "requireName e =
     (case requireArgument e of
        Some (StringLiteral v raw) \<Rightarrow>
          (let nm = (case v of
                       Some s \<Rightarrow> if s \<noteq> [] then s else butlast (tl raw)
                     | None \<Rightarrow> butlast (tl raw))
           in if nm \<noteq> [] then Some nm else None)
      | _ \<Rightarrow> None)"

definition tryReadRequire :: "expression \<Rightarrow> Walk \<Rightarrow> bool \<times> Walk" where
  "tryReadRequire e w =
     (case requireName e of
        None \<Rightarrow> (False, w)
      | Some nm \<Rightarrow>
          (True, w\<lparr>curFileBlock := addFileDependency (pass w) (getFileIdentifier nm) (curFileBlock w)\<rparr>))"

definition pushBlock :: "LuaBlockNode \<Rightarrow> nat \<Rightarrow> Walk \<Rightarrow> Walk option" where
  "pushBlock nd par w =
     map_option (\<lambda>r. w\<lparr>curFileBlock := snd r, stack := stack w @ [(fst r, nd)]\<rparr>)
       (newLuaBlock (pass w) nd (Some par) (curFileBlock w))"

definition readCallExpression :: "expression \<Rightarrow> expression list \<Rightarrow> nat \<Rightarrow> Walk \<Rightarrow> Walk" where
  "readCallExpression base args block w =
     w\<lparr>curFileBlock := addCall (pass w) block base args (curFileBlock w)\<rparr>"

fun readExpression :: "expression \<Rightarrow> nat \<Rightarrow> Walk \<Rightarrow> Walk option"
  and readExpressions :: "expression list \<Rightarrow> nat \<Rightarrow> Walk \<Rightarrow> Walk option"
  and readFields :: "tablefield list \<Rightarrow> nat \<Rightarrow> Walk \<Rightarrow> Walk option" where
  "readExpression (Identifier nm) block w =
     Some (if getLocal (blocks (curFileBlock w)) block nm = None then addGlobalReference nm w else w)"
| "readExpression (MemberExpression base m) block w = readExpression base block w"
| "readExpression (IndexExpression base index) block w =
     Option.bind (readExpression base block w) (readExpression index block)"
| "readExpression (CallExpression base args) block w =
     (case tryReadRequire (CallExpression base args) w of
        (True, w') \<Rightarrow> Some w'
      | (False, w') \<Rightarrow>
          Option.bind (readExpression base block w') (\<lambda>w1.
          Option.bind (readExpressions args block w1) (\<lambda>w2.
          Some (readCallExpression base args block w2))))"
| "readExpression (TableCallExpression base args) block w =
     Option.bind (readExpression base block w) (readExpression args block)"
| "readExpression (StringCallExpression base arg) block w =
     (case tryReadRequire (StringCallExpression base arg) w of
        (True, w') \<Rightarrow> Some w'
      | (False, w') \<Rightarrow> Option.bind (readExpression base block w') (readExpression arg block))"
| "readExpression (TableConstructorExpression flds) block w = readFields flds block w"
| "readExpression (FunctionExpression fd) block w = pushBlock (FunctionNode fd) block w"
| "readExpression (UnaryExpression opr arg) block w = readExpression arg block w"
| "readExpression (BinaryExpression opr l r) block w =
     Option.bind (readExpression l block w) (readExpression r block)"
| "readExpression (LogicalExpression opr l r) block w =
     Option.bind (readExpression l block w) (readExpression r block)"
| "readExpression (StringLiteral v raw) block w = Some w"
| "readExpression (NumericLiteral raw) block w = Some w"
| "readExpression (BooleanLiteral b) block w = Some w"
| "readExpression NilLiteral block w = Some w"
| "readExpression VarargLiteral block w = Some w"
| "readExpressions [] block w = Some w"
| "readExpressions (e # es) block w =
     Option.bind (readExpression e block w) (readExpressions es block)"
| "readFields [] block w = Some w"
| "readFields (TableKey k v # fs) block w =
     Option.bind (readExpression v block w) (\<lambda>w1.
     Option.bind (readExpression k block w1) (readFields fs block))"
| "readFields (TableKeyString k v # fs) block w =
     Option.bind (readExpression v block w) (readFields fs block)"
| "readFields (TableValue v # fs) block w =
     Option.bind (readExpression v block w) (readFields fs block)"


text \<open>
  \<^verbatim>\<open>prepareAssignment\<close> pairs every variable with \<^verbatim>\<open>statement.init[i]\<close>, which is
  \<^verbatim>\<open>undefined\<close> past the end of \<^verbatim>\<open>init\<close>, and reads the initializers that exist;
  initializers beyond the last variable are never looked at. Then it reads the base of
  every target that is not an identifier.
\<close>

definition padInit :: "'a list \<Rightarrow> expression list \<Rightarrow> expression option list" where
  "padInit vars init = map (\<lambda>i. if i < length init then Some (init ! i) else None) [0..<length vars]"

fun readTargetBases :: "expression list \<Rightarrow> nat \<Rightarrow> Walk \<Rightarrow> Walk option" where
  "readTargetBases [] block w = Some w"
| "readTargetBases (Identifier nm # vs) block w = readTargetBases vs block w"
| "readTargetBases (MemberExpression base m # vs) block w =
     Option.bind (readExpression base block w) (readTargetBases vs block)"
| "readTargetBases (IndexExpression base index # vs) block w =
     Option.bind (readExpression base block w) (readTargetBases vs block)"
| "readTargetBases (v # vs) block w = readTargetBases vs block w"

definition prepareAssignment ::
  "expression list \<Rightarrow> expression list \<Rightarrow> nat \<Rightarrow> Walk
    \<Rightarrow> (expression list \<times> expression option list \<times> Walk) option" where
  "prepareAssignment vars init block w =
     map_option (\<lambda>w'. (vars, padInit vars init, w'))
       (Option.bind (readExpressions (take (length vars) init) block w) (readTargetBases vars block))"

definition readAssignStatement ::
  "expression list \<Rightarrow> expression list \<Rightarrow> nat \<Rightarrow> Walk \<Rightarrow> Walk option" where
  "readAssignStatement vars init block w =
     Option.bind (prepareAssignment vars init block w) (\<lambda>(ls, rs, w').
       map_option (\<lambda>file. w'\<lparr>curFileBlock := file\<rparr>)
         (addAssignment (pass w') block ls rs (curFileBlock w')))"

definition readLocalStatement ::
  "string list \<Rightarrow> expression list \<Rightarrow> nat \<Rightarrow> Walk \<Rightarrow> Walk option" where
  "readLocalStatement vars init block w =
     Option.bind (prepareAssignment (map Identifier vars) init block w) (\<lambda>(ls, rs, w').
       map_option (\<lambda>file. w'\<lparr>curFileBlock := file\<rparr>)
         (addLocalAssignment (pass w') block vars rs None (curFileBlock w')))"

fun processStatement :: "statement \<Rightarrow> nat \<Rightarrow> Walk \<Rightarrow> Walk option" where
  "processStatement (LocalStatement vars init) block w = readLocalStatement vars init block w"
| "processStatement (AssignmentStatement vars init) block w = readAssignStatement vars init block w"
| "processStatement (CallStatement e) block w = readExpression e block w"
| "processStatement (ReturnStatement args) block w =
     map_option
       (\<lambda>w'. w'\<lparr>curFileBlock := addReturn (pass w') block (ReturnStatement args) (curFileBlock w')\<rparr>)
       (readExpressions args block w)"
| "processStatement (IfStatement clauses) block w =
     forEach (\<lambda>c. pushBlock (ClauseNode c) block) clauses w"
| "processStatement (FunctionStatement fd) block w = pushBlock (FunctionNode fd) block w"
| "processStatement (DoStatement b) block w = pushBlock (DoNode b) block w"
| "processStatement (WhileStatement c b) block w = pushBlock (WhileNode c b) block w"
| "processStatement (RepeatStatement c b) block w = pushBlock (RepeatNode c b) block w"
| "processStatement (ForNumericStatement v s e st b) block w =
     pushBlock (ForNumericNode v s e st b) block w"
| "processStatement (ForGenericStatement vars iters b) block w =
     Option.bind (readExpressions iters block w) (pushBlock (ForGenericNode vars iters b) block)"
| "processStatement BreakStatement block w = Some w"
| "processStatement (LabelStatement l) block w = Some w"
| "processStatement (GotoStatement l) block w = Some w"

definition processBlock :: "nat \<times> LuaBlockNode \<Rightarrow> Walk \<Rightarrow> Walk option" where
  "processBlock entry w = forEach (\<lambda>s. processStatement s (fst entry)) (nodeBody (snd entry)) w"

text \<open>
  The work loop of \<^verbatim>\<open>processFile\<close> pops the last block pushed and processes its body;
  the blocks that the body pushes are for strictly smaller syntax nodes.
\<close>

definition nodeWeight :: "nat \<times> LuaBlockNode \<Rightarrow> nat" where
  "nodeWeight e = Suc (size_list size (nodeBody (snd e)))"

definition stackWeight :: "Walk \<Rightarrow> nat" where
  "stackWeight w = sum_list (map nodeWeight (stack w))"

definition pushes :: "Walk \<Rightarrow> Walk \<Rightarrow> nat \<Rightarrow> bool" where
  "pushes w w' n = (\<exists>new. stack w' = stack w @ new \<and> sum_list (map nodeWeight new) \<le> n)"


definition pushesTo :: "Walk \<Rightarrow> nat \<Rightarrow> Walk option \<Rightarrow> bool" where
  "pushesTo w n r = (case r of None \<Rightarrow> True | Some w' \<Rightarrow> pushes w w' n)"

lemma pushesTo_None [simp]: "pushesTo w n None"
  by (simp add: pushesTo_def)

lemma pushesTo_Some [simp]: "pushesTo w n (Some w') = pushes w w' n"
  by (simp add: pushesTo_def)

lemma pushes_refl: "pushes w w n" by (simp add: pushes_def)

lemma pushes_trans: "pushes w w' n \<Longrightarrow> pushes w' w'' m \<Longrightarrow> n + m \<le> k \<Longrightarrow> pushes w w'' k"
  by (auto simp: pushes_def)

lemma pushes_same_stack: "stack w' = stack w \<Longrightarrow> pushes w' w'' n \<Longrightarrow> pushes w w'' n"
  by (simp add: pushes_def)

lemma pushes_mono: "pushes w w' n \<Longrightarrow> n \<le> m \<Longrightarrow> pushes w w' m"
  by (auto simp: pushes_def)

lemma pushes_stack_eq: "stack w' = stack w \<Longrightarrow> pushes w w' n"
  by (simp add: pushes_def)

lemma pushesTo_mono: "pushesTo w n r \<Longrightarrow> n \<le> m \<Longrightarrow> pushesTo w m r"
  by (cases r) (auto intro: pushes_mono)

lemma pushesTo_same_stack: "stack w' = stack w \<Longrightarrow> pushesTo w' n r \<Longrightarrow> pushesTo w n r"
  by (cases r) (auto intro: pushes_same_stack)

lemma pushesTo_bind:
  assumes "pushesTo w n m" and "\<And>w'. m = Some w' \<Longrightarrow> pushesTo w' k (f w')" and "n + k \<le> j"
  shows "pushesTo w j (Option.bind m f)"
proof (cases m)
  case None
  then show ?thesis by simp
next
  case (Some w')
  show ?thesis
  proof (cases "f w'")
    case None
    then show ?thesis using Some by simp
  next
    case (Some w'')
    have "pushes w w' n" using assms(1) \<open>m = Some w'\<close> by simp
    moreover have "pushes w' w'' k" using assms(2) [OF \<open>m = Some w'\<close>] Some by simp
    ultimately have "pushes w w'' j" using assms(3) by (rule pushes_trans)
    then show ?thesis using Some \<open>m = Some w'\<close> by simp
  qed
qed

lemma pushesTo_map:
  assumes "pushesTo w n m" and "\<And>w'. stack (g w') = stack w'"
  shows "pushesTo w n (map_option g m)"
  using assms by (cases m) (auto simp: pushes_def)

lemma stack_tryReadRequire: "tryReadRequire e w = (t, w') \<Longrightarrow> stack w' = stack w"
  by (auto simp: tryReadRequire_def split: option.splits)

lemma stack_pushBlock:
  "pushBlock nd b w = Some w' \<Longrightarrow> stack w' = stack w @ [(length (blocks (curFileBlock w)), nd)]"
  by (auto simp: pushBlock_def newLuaBlock_def Let_def)

lemma pushesTo_pushBlock: "Suc (size_list size (nodeBody nd)) \<le> n \<Longrightarrow> pushesTo w n (pushBlock nd b w)"
  by (cases "pushBlock nd b w") (auto simp: pushes_def nodeWeight_def dest!: stack_pushBlock)

lemma pushes_readExpression:
  "pushesTo w (size e) (readExpression e b w)"
  "pushesTo w (size_list size es) (readExpressions es b w)"
  "pushesTo w (size_list size fs) (readFields fs b w)"
proof (induction e b w and es b w and fs b w rule: readExpression_readExpressions_readFields.induct)
  case (4 base args block w)
  obtain t w' where tr: "tryReadRequire (CallExpression base args) w = (t, w')"
    by fastforce
  have st: "stack w' = stack w" using tr by (rule stack_tryReadRequire)
  show ?case
  proof (cases t)
    case True
    then show ?thesis using tr st by (simp add: pushes_stack_eq)
  next
    case False
    have a: "pushesTo w' (size base) (readExpression base block w')"
      using "4.IH"(1) tr False by simp
    have b: "pushesTo w1 (size_list size args)
               (Option.bind (readExpressions args block w1) (\<lambda>w2. Some (readCallExpression base args block w2)))"
      if "readExpression base block w' = Some w1" for w1
    proof (rule pushesTo_bind)
      show "pushesTo w1 (size_list size args) (readExpressions args block w1)"
        using "4.IH"(2) tr False that by simp
      show "pushesTo w2 0 (Some (readCallExpression base args block w2))" for w2
        by (simp add: pushes_def readCallExpression_def)
    qed simp
    have "pushesTo w' (size base + size_list size args)
            (Option.bind (readExpression base block w') (\<lambda>w1.
               Option.bind (readExpressions args block w1) (\<lambda>w2. Some (readCallExpression base args block w2))))"
      using pushesTo_bind [OF a b order_refl] by simp
    then show ?thesis using pushesTo_mono [OF pushesTo_same_stack [OF st]] tr False by simp
  qed
next
  case (6 base arg block w)
  obtain t w' where tr: "tryReadRequire (StringCallExpression base arg) w = (t, w')"
    by fastforce
  have st: "stack w' = stack w" using tr by (rule stack_tryReadRequire)
  show ?case
  proof (cases t)
    case True
    then show ?thesis using tr st by (simp add: pushes_stack_eq)
  next
    case False
    have a: "pushesTo w' (size base) (readExpression base block w')"
      using "6.IH"(1) tr False by simp
    have b: "pushesTo w1 (size arg) (readExpression arg block w1)"
      if "readExpression base block w' = Some w1" for w1
      using "6.IH"(2) tr False that by simp
    have "pushesTo w' (size base + size arg)
            (Option.bind (readExpression base block w') (readExpression arg block))"
      using pushesTo_bind [OF a b order_refl] by simp
    then show ?thesis using pushesTo_mono [OF pushesTo_same_stack [OF st]] tr False by simp
  qed
next
  case (8 fd block w)
  then show ?case by (cases fd) (auto intro!: pushesTo_pushBlock)
next
  case (20 k v fs block w)
  have b: "pushesTo w1 (size k + size_list size fs)
             (Option.bind (readExpression k block w1) (readFields fs block))"
    if "readExpression v block w = Some w1" for w1
    using "20.IH"(2) [OF that] "20.IH"(3) [OF that] by (rule pushesTo_bind) simp_all
  show ?case using pushesTo_bind [OF "20.IH"(1) b] by simp
qed (auto intro: pushes_refl pushesTo_bind pushesTo_mono simp: addGlobalReference_def pushes_stack_eq)

lemma pushes_readTargetBases: "pushesTo w (sum_list (map size vs)) (readTargetBases vs b w)"
proof (induction vs b w rule: readTargetBases.induct)
  case (3 base m vs block w)
  have "pushesTo w (size base) (readExpression base block w)"
    by (rule pushes_readExpression)
  from pushesTo_bind [OF this "3.IH"] show ?case by simp
next
  case (4 base index vs block w)
  have "pushesTo w (size base) (readExpression base block w)"
    by (rule pushes_readExpression)
  from pushesTo_bind [OF this "4.IH"] show ?case by simp
qed (auto intro: pushes_refl pushesTo_mono)

lemma size_list_take: "size_list f (take n xs) \<le> size_list f xs"
  by (induction xs arbitrary: n) (auto simp: take_Cons split: nat.splits intro: le_SucI trans_le_add2)

lemma sum_list_size_le: "sum_list (map f xs) \<le> size_list f xs"
  by (induction xs) auto

lemma pushes_prepareAssignment:
  assumes "prepareAssignment vars init b w = Some (ls, rs, w')"
  shows "pushes w w' (sum_list (map size vars) + size_list size init)"
proof -
  let ?r = "Option.bind (readExpressions (take (length vars) init) b w) (readTargetBases vars b)"
  have a: "pushesTo w (size_list size init) (readExpressions (take (length vars) init) b w)"
    using pushes_readExpression(2) size_list_take by (rule pushesTo_mono)
  have "pushesTo w (size_list size init + sum_list (map size vars)) ?r"
    using a pushes_readTargetBases by (rule pushesTo_bind) simp_all
  moreover have "?r = Some w'"
    using assms by (auto simp: prepareAssignment_def)
  ultimately show ?thesis by (simp add: add.commute)
qed

lemma pushes_forEach:
  assumes "\<And>x w. x \<in> set xs \<Longrightarrow> pushesTo w (g x) (f x w)"
  shows "pushesTo w (sum_list (map g xs)) (forEach f xs w)"
  using assms
proof (induction xs arbitrary: w)
  case Nil
  show ?case by (simp add: pushes_refl)
next
  case (Cons x xs)
  have a: "pushesTo w (g x) (f x w)" using Cons.prems by simp
  have b: "pushesTo w' (sum_list (map g xs)) (forEach f xs w')" for w'
    using Cons.prems by (intro Cons.IH) simp
  show ?case using pushesTo_bind [OF a b order_refl] by simp
qed

lemma pushes_processStatement: "pushesTo w (size s) (processStatement s b w)"
proof (cases s)
  case (LocalStatement vars init)
  have z: "sum_list (map (size \<circ> Identifier) vars) = 0"
    by (induction vars) auto
  show ?thesis
  proof (cases "processStatement s b w")
    case None
    then show ?thesis by simp
  next
    case (Some w2)
    then obtain ls rs w' where p: "prepareAssignment (map Identifier vars) init b w = Some (ls, rs, w')"
      and st: "stack w2 = stack w'"
      using LocalStatement by (auto simp: readLocalStatement_def bind_eq_Some_conv)
    from pushes_prepareAssignment [OF p] z st show ?thesis
      using Some LocalStatement by (auto simp: pushes_def)
  qed
next
  case (AssignmentStatement vars init)
  have z: "sum_list (map size vars) \<le> size_list size vars"
    by (rule sum_list_size_le)
  show ?thesis
  proof (cases "processStatement s b w")
    case None
    then show ?thesis by simp
  next
    case (Some w2)
    then obtain ls rs w' where p: "prepareAssignment vars init b w = Some (ls, rs, w')"
      and st: "stack w2 = stack w'"
      using AssignmentStatement by (auto simp: readAssignStatement_def bind_eq_Some_conv)
    from pushes_prepareAssignment [OF p] z st show ?thesis
      using Some AssignmentStatement by (auto simp: pushes_def)
  qed
next
  case (CallStatement e)
  then show ?thesis using pushesTo_mono [OF pushes_readExpression(1)] by simp
next
  case (ReturnStatement args)
  have "pushesTo w (size_list size args) (readExpressions args b w)"
    by (rule pushes_readExpression)
  then have "pushesTo w (size_list size args) (processStatement s b w)"
    unfolding ReturnStatement processStatement.simps by (rule pushesTo_map) simp
  then show ?thesis using ReturnStatement by (auto intro: pushesTo_mono)
next
  case (IfStatement cs)
  have "pushesTo w (sum_list (map size cs)) (forEach (\<lambda>c. pushBlock (ClauseNode c) b) cs w)"
  proof (rule pushes_forEach)
    fix c w show "pushesTo w (size c) (pushBlock (ClauseNode c) b w)"
      by (cases c) (auto intro!: pushesTo_pushBlock)
  qed
  then show ?thesis using IfStatement sum_list_size_le [of size cs]
    by (auto intro: pushesTo_mono)
next
  case (FunctionStatement fd)
  then show ?thesis by (cases fd) (auto intro!: pushesTo_pushBlock)
next
  case (ForGenericStatement vars iters body)
  have a: "pushesTo w (size_list size iters) (readExpressions iters b w)"
    by (rule pushes_readExpression)
  have "pushesTo w1 (Suc (size_list size body)) (pushBlock (ForGenericNode vars iters body) b w1)" for w1
    by (auto intro!: pushesTo_pushBlock)
  from pushesTo_bind [OF a this]
  show ?thesis using ForGenericStatement by simp
qed (auto intro!: pushesTo_pushBlock pushes_refl)

lemma pushes_processBlock:
  "pushesTo w (size_list size (nodeBody (snd e))) (processBlock e w)"
proof -
  have "pushesTo w (sum_list (map size (nodeBody (snd e)))) (processBlock e w)"
    unfolding processBlock_def by (rule pushes_forEach) (rule pushes_processStatement)
  then show ?thesis using sum_list_size_le by (rule pushesTo_mono)
qed

lemma stackWeight_processBlock:
  assumes "stack w \<noteq> []"
      and "processBlock (last (stack w)) (w\<lparr>stack := butlast (stack w)\<rparr>) = Some w'"
  shows "stackWeight w' < stackWeight w"
proof -
  let ?e = "last (stack w)"
  let ?w = "w\<lparr>stack := butlast (stack w)\<rparr>"
  have "pushes ?w w' (size_list size (nodeBody (snd ?e)))"
    using pushes_processBlock [of ?w ?e] assms(2) by simp
  then obtain new where n: "stack w' = butlast (stack w) @ new"
    and le: "sum_list (map nodeWeight new) \<le> size_list size (nodeBody (snd ?e))"
    by (auto simp: pushes_def)
  have "stack w = butlast (stack w) @ [?e]" using assms by simp
  then have "map nodeWeight (stack w) = map nodeWeight (butlast (stack w)) @ [nodeWeight ?e]"
    by (metis list.simps(8,9) map_append)
  then have "stackWeight w = sum_list (map nodeWeight (butlast (stack w))) + nodeWeight ?e"
    unfolding stackWeight_def by simp
  with n le show ?thesis by (simp add: stackWeight_def nodeWeight_def)
qed

function processLoop :: "Walk \<Rightarrow> Walk option" where
  "processLoop w =
     (if stack w = [] then Some w
      else Option.bind (processBlock (last (stack w)) (w\<lparr>stack := butlast (stack w)\<rparr>)) processLoop)"
  by pat_completeness auto
termination
  by (relation "measure stackWeight") (auto simp: stackWeight_processBlock)

declare processLoop.simps [simp del]

text \<open>
  \<^verbatim>\<open>processFile\<close> seeds the stack with the file itself (address 0) and runs the loop.
  A \<open>LuaFile\<close> always has its own block; the empty store stands for no file at all.
\<close>

definition processFile :: "AnalysisPass \<Rightarrow> LuaFile \<Rightarrow> LuaFile option" where
  "processFile p file =
     (case blocks file of
        [] \<Rightarrow> Some file
      | b # bs \<Rightarrow>
          map_option curFileBlock (processLoop \<lparr>pass = p, curFileBlock = file, stack = [(0, node b)]\<rparr>))"


subsection \<open>Reading the input directories\<close>

text \<open>
  The file system is outside the program. What it answers is the input: a file either
  cannot be read, or is read and rejected by the parser, or parses to a chunk
  (\<^verbatim>\<open>ast.parse(sanitizeLua(content))\<close>); a directory yields its entries and then, if
  \<^verbatim>\<open>opendir\<close> or the iteration throws, an error.
\<close>

datatype FileSource = ReadFailure string | ParseFailure string | ParsedChunk "statement list"

datatype Dirent =
    FileEntry string FileSource
  | DirectoryEntry string "Dirent list" "string option"
  | OtherEntry string

type_synonym LuaFileRecord = "(string \<times> LuaFile) list"

text \<open>
  A \<^verbatim>\<open>LuaFileRecord\<close> is an object used as a dictionary: its keys in the order of
  \<^verbatim>\<open>Object.keys\<close>, assigning to an existing key keeps the key's place.
\<close>

fun recordSet :: "string \<Rightarrow> 'a \<Rightarrow> (string \<times> 'a) list \<Rightarrow> (string \<times> 'a) list" where
  "recordSet k v [] = [(k, v)]"
| "recordSet k v (e # es) = (if fst e = k then (k, v) # es else e # recordSet k v es)"

definition quoted :: "string \<Rightarrow> string" where
  "quoted s = [CHR 0x27] @ s @ [CHR 0x27]"

text \<open>
  The second \<^verbatim>\<open>try\<close> block of \<^verbatim>\<open>readFile\<close> also catches what the walk throws; the
  message is that of the \<^verbatim>\<open>TypeError\<close>. A global that the walk records is never one of
  the inherited property names (for those \<^verbatim>\<open>getLocal\<close> answers first), so updating
  \<^verbatim>\<open>globalSetters\<close> does not throw.
\<close>

definition typeError :: string where
  "typeError = ''TypeError: Cannot read properties of undefined (reading '' @ quoted ''push'' @ '')''"

definition readFile ::
  "string \<Rightarrow> FileSource \<Rightarrow> LuaGameSubdirectory \<Rightarrow> string \<Rightarrow> Analyzer
    \<Rightarrow> LuaFile option \<times> Analyzer" where
  "readFile filePath src subdir nm an =
     (case src of
        ReadFailure e \<Rightarrow>
          (None, an\<lparr>errors := errors an @ [''Failed to read file '' @ quoted filePath @ '': '' @ e]\<rparr>)
      | ParseFailure e \<Rightarrow>
          (None, an\<lparr>errors := errors an @ [''Failed to analyze file '' @ quoted filePath @ '': '' @ e]\<rparr>)
      | ParsedChunk tree \<Rightarrow>
          (case processFile (Analyzer.pass an) (newLuaFile tree subdir nm) of
             None \<Rightarrow>
               (None, an\<lparr>errors := errors an
                        @ [''Failed to analyze file '' @ quoted filePath @ '': '' @ typeError]\<rparr>)
           | Some walked \<Rightarrow>
               (let file = cleanup walked
                in (Some file,
                    an\<lparr>globalSetters :=
                          fold (\<lambda>x gs. gs(x := setAdd nm (gs x))) (globalsSet file)
                            (globalSetters an)\<rparr>))))"

text \<open>
  \<^verbatim>\<open>path.extname\<close>: from the last dot of the last path component, empty when that
  component has no dot or only a leading one. \<^verbatim>\<open>path.join(dirPath, name)\<close> of a
  directory and the name of one of its entries puts the separator between them.
\<close>

definition basename :: "string \<Rightarrow> string \<Rightarrow> string" where
  "basename sep p = rev (takeWhile (\<lambda>c. c \<notin> set sep) (rev p))"

definition extname :: "string \<Rightarrow> string \<Rightarrow> string" where
  "extname sep p =
     (let b = basename sep p;
          ext = rev (takeWhile (\<lambda>c. c \<noteq> CHR ''.'') (rev b))
      in if CHR ''.'' \<notin> set b \<or> length b = Suc (length ext) \<or> b = ''..'' then []
         else CHR ''.'' # ext)"

definition pathJoin :: "string \<Rightarrow> string \<Rightarrow> string \<Rightarrow> string" where
  "pathJoin sep dirPath nm = dirPath @ sep @ nm"

fun aliasNames :: "string \<Rightarrow> string list" where
  "aliasNames [] = []"
| "aliasNames (c # cs) = (if c = CHR ''/'' then cs # aliasNames cs else aliasNames cs)"

definition addAliases :: "string \<Rightarrow> Analyzer \<Rightarrow> Analyzer" where
  "addAliases nm an =
     an\<lparr>fileAliases := fold (\<lambda>partialName al. al(partialName := setAdd nm (al partialName)))
                          (aliasNames nm) (fileAliases an)\<rparr>"

text \<open>
  The state of \<^verbatim>\<open>readDirectory\<close>: the stack of directories still to scan (each with
  what scanning it will yield), the file map of the group, and the analyzer.
\<close>

type_synonym DirFrame = "string \<times> Dirent list \<times> string option"

type_synonym ReadState = "DirFrame list \<times> LuaFileRecord \<times> Analyzer"

fun scanEntry ::
  "string \<Rightarrow> nat \<Rightarrow> LuaGameSubdirectory \<Rightarrow> string \<Rightarrow> Dirent \<Rightarrow> ReadState \<Rightarrow> ReadState" where
  "scanEntry sep pathStart subdir dirPath (DirectoryEntry n es err) (stk, fileMap, an) =
     (stk @ [(pathJoin sep dirPath n, es, err)], fileMap, an)"
| "scanEntry sep pathStart subdir dirPath (FileEntry n src) (stk, fileMap, an) =
     (let childPath = pathJoin sep dirPath n
      in if extname sep childPath = ''.lua''
         then (let nm = getFileIdentifier (drop pathStart childPath)
               in (case readFile childPath src subdir nm an of
                     (None, an') \<Rightarrow> (stk, fileMap, an')
                   | (Some block, an') \<Rightarrow> (stk, recordSet nm block fileMap, addAliases nm an')))
         else (stk, fileMap, an))"
| "scanEntry sep pathStart subdir dirPath (OtherEntry n) st = st"

definition frameWeight :: "DirFrame \<Rightarrow> nat" where
  "frameWeight fr = Suc (size_list size (fst (snd fr)))"

lemma scanEntry_stack:
  "\<exists>new. fst (scanEntry sep ps subdir dirPath e (stk, fileMap, an)) = stk @ new
     \<and> sum_list (map frameWeight new) \<le> size e"
  by (cases e) (auto simp: frameWeight_def Let_def split: prod.splits option.splits)

lemma scanEntries_stack:
  "\<exists>new. fst (fold (scanEntry sep ps subdir dirPath) es (stk, fileMap, an)) = stk @ new
     \<and> sum_list (map frameWeight new) \<le> size_list size es"
proof (induction es arbitrary: stk fileMap an)
  case Nil
  show ?case by simp
next
  case (Cons e es)
  obtain stk1 fm1 an1 where s1: "scanEntry sep ps subdir dirPath e (stk, fileMap, an) = (stk1, fm1, an1)"
    by (metis prod_cases3)
  obtain new1 where n1: "stk1 = stk @ new1" "sum_list (map frameWeight new1) \<le> size e"
    using scanEntry_stack [of sep ps subdir dirPath e stk fileMap an] s1 by auto
  obtain new2 where n2: "fst (fold (scanEntry sep ps subdir dirPath) es (stk1, fm1, an1)) = stk1 @ new2"
    "sum_list (map frameWeight new2) \<le> size_list size es"
    using Cons.IH by blast
  have "fst (fold (scanEntry sep ps subdir dirPath) (e # es) (stk, fileMap, an)) = stk @ (new1 @ new2)"
    using s1 n1 n2 by simp
  moreover have "sum_list (map frameWeight (new1 @ new2)) \<le> size_list size (e # es)"
    using n1 n2 by simp
  ultimately show ?case by blast
qed

definition scanFailure :: "string \<Rightarrow> string option \<Rightarrow> Analyzer \<Rightarrow> Analyzer" where
  "scanFailure dirPath err an =
     (case err of
        None \<Rightarrow> an
      | Some e \<Rightarrow>
          an\<lparr>errors := errors an @ [''Failed to scan directory '' @ [CHR 0x27] @ dirPath @ '': '' @ e @ [CHR 0x27]]\<rparr>)"

definition scanTop :: "string \<Rightarrow> nat \<Rightarrow> LuaGameSubdirectory \<Rightarrow> ReadState \<Rightarrow> ReadState" where
  "scanTop sep pathStart subdir st =
     (case st of (stk, fileMap, an) \<Rightarrow>
        (case last stk of (dirPath, es, err) \<Rightarrow>
           (case fold (scanEntry sep pathStart subdir dirPath) es (butlast stk, fileMap, an) of
              (stk', fileMap', an') \<Rightarrow> (stk', fileMap', scanFailure dirPath err an'))))"

lemma scanTop_decreases:
  assumes "stk \<noteq> []"
  shows "sum_list (map frameWeight (fst (scanTop sep ps subdir (stk, fileMap, an))))
           < sum_list (map frameWeight stk)"
proof -
  obtain dirPath es err where l: "last stk = (dirPath, es, err)"
    by (metis prod_cases3)
  obtain new where n: "fst (fold (scanEntry sep ps subdir dirPath) es (butlast stk, fileMap, an)) = butlast stk @ new"
    and le: "sum_list (map frameWeight new) \<le> size_list size es"
    using scanEntries_stack by blast
  have "stk = butlast stk @ [last stk]" using assms by simp
  then have "map frameWeight stk = map frameWeight (butlast stk) @ [frameWeight (last stk)]"
    by (metis list.simps(8,9) map_append)
  then have "sum_list (map frameWeight stk)
               = sum_list (map frameWeight (butlast stk)) + Suc (size_list size es)"
    using l by (simp add: frameWeight_def)
  moreover have "fst (scanTop sep ps subdir (stk, fileMap, an)) = butlast stk @ new"
    using l n by (auto simp: scanTop_def split: prod.splits)
  ultimately show ?thesis using le by simp
qed

function readDirectoryLoop ::
  "string \<Rightarrow> nat \<Rightarrow> LuaGameSubdirectory \<Rightarrow> ReadState \<Rightarrow> ReadState" where
  "readDirectoryLoop sep pathStart subdir st =
     (if fst st = [] then st
      else readDirectoryLoop sep pathStart subdir (scanTop sep pathStart subdir st))"
  by pat_completeness auto
termination
  by (relation "measure (\<lambda>(sep, ps, subdir, st). sum_list (map frameWeight (fst st)))")
     (auto simp: scanTop_decreases)

declare readDirectoryLoop.simps [simp del]

definition readDirectory ::
  "string \<Rightarrow> string \<Rightarrow> Dirent list \<times> string option \<Rightarrow> LuaGameSubdirectory
    \<Rightarrow> LuaFileRecord \<times> Analyzer \<Rightarrow> LuaFileRecord \<times> Analyzer" where
  "readDirectory sep startDirPath scan subdir st =
     snd (readDirectoryLoop sep (length startDirPath + length sep) subdir
            ([(startDirPath, fst scan, snd scan)], fst st, snd st))"

subsection \<open>Dependency resolution: the order of analysis\<close>

definition gameFileDirectories :: "LuaGameSubdirectory list" where
  "gameFileDirectories = [Shared, Server, Client]"

fun getFileIn ::
  "LuaGameSubdirectory list \<Rightarrow> (LuaGameSubdirectory \<Rightarrow> LuaFileRecord) \<Rightarrow> string \<Rightarrow> LuaFile option" where
  "getFileIn [] files nm = None"
| "getFileIn (subdir # ds) files nm =
     (case map_of (files subdir) nm of Some file \<Rightarrow> Some file | None \<Rightarrow> getFileIn ds files nm)"

definition getFile :: "(LuaGameSubdirectory \<Rightarrow> LuaFileRecord) \<Rightarrow> string \<Rightarrow> LuaFile option" where
  "getFile files nm = getFileIn gameFileDirectories files nm"

definition getDependencyIdentifier ::
  "(LuaGameSubdirectory \<Rightarrow> LuaFileRecord) \<Rightarrow> (string \<Rightarrow> string list) \<Rightarrow> string \<Rightarrow> string option" where
  "getDependencyIdentifier files aliases nm =
     (if getFile files nm \<noteq> None then Some nm
      else (case aliases nm of [] \<Rightarrow> None | first # rest \<Rightarrow> Some first))"

text \<open>
  The loose dependencies of a file: for every global it still depends on that has a
  setter, the first setter. \<^verbatim>\<open>looseDeps\<close> is keyed by file identity alone and filled
  group after group, so a later group's file overwrites the entry of an earlier file
  with the same identity.
\<close>

definition looseDepsOf :: "(string \<Rightarrow> string list) \<Rightarrow> LuaFile \<Rightarrow> string list" where
  "looseDepsOf setters file =
     fold (\<lambda>x acc. case setters x of [] \<Rightarrow> acc | setter # rest \<Rightarrow> setAdd setter acc)
       (globalDependencies file) []"

definition allEntries :: "(LuaGameSubdirectory \<Rightarrow> LuaFileRecord) \<Rightarrow> (string \<times> LuaFile) list" where
  "allEntries files = concat (map files gameFileDirectories)"

definition computeLooseDeps ::
  "(string \<Rightarrow> string list) \<Rightarrow> (LuaGameSubdirectory \<Rightarrow> LuaFileRecord) \<Rightarrow> string \<Rightarrow> string list option" where
  "computeLooseDeps setters files =
     fold (\<lambda>e m. m(fst e \<mapsto> looseDepsOf setters (snd e))) (allEntries files) Map.empty"

definition clearGlobalDependencies ::
  "(LuaGameSubdirectory \<Rightarrow> LuaFileRecord) \<Rightarrow> LuaGameSubdirectory \<Rightarrow> LuaFileRecord" where
  "clearGlobalDependencies files subdir =
     map (\<lambda>e. (fst e, (snd e)\<lparr>globalDependencies := []\<rparr>)) (files subdir)"

text \<open>
  The keys of a group are \<^verbatim>\<open>Object.keys(rec)\<close> sorted with the comparator
  \<^verbatim>\<open>a.toLocaleUpperCase() < b.toLocaleUpperCase() ? 1 : -1\<close>, that is, descending by
  upper-cased name, and then used as a stack. The program does not fix the array that
  this yields: upper-casing depends on the locale of the host, \<^verbatim>\<open>Object.keys\<close> lists
  the keys that look like array indices before the others, and the comparator never
  answers 0, so that for keys whose upper-cased forms coincide the order is left to the
  engine. The sorted array is therefore part of the input of a run, \<open>keyOrder\<close> below:
  a function from the keys of a record, in insertion order, to the array that
  \<^verbatim>\<open>sort\<close> returns. The ordering functions take it as their first argument, \<open>srt\<close>.
  The properties proved of them need only that it returns the keys it is given.
  \<open>sortKeys\<close> is the order for names written in ASCII whose upper-cased forms differ:
  strings compare by code unit, and the sort is an insertion sort.
\<close>

definition toUpperCase :: "string \<Rightarrow> string" where
  "toUpperCase s =
     map (\<lambda>c. if 97 \<le> (of_char c :: nat) \<and> (of_char c :: nat) \<le> 122
               then char_of ((of_char c :: nat) - 32) else c) s"

fun stringLess :: "string \<Rightarrow> string \<Rightarrow> bool" where
  "stringLess [] [] = False"
| "stringLess [] (b # bs) = True"
| "stringLess (a # as) [] = False"
| "stringLess (a # as) (b # bs) =
     ((of_char a :: nat) < of_char b \<or> (a = b \<and> stringLess as bs))"

definition compareKeys :: "string \<Rightarrow> string \<Rightarrow> int" where
  "compareKeys a b = (if stringLess (toUpperCase a) (toUpperCase b) then 1 else - 1)"

fun insertKey :: "string \<Rightarrow> string list \<Rightarrow> string list" where
  "insertKey k [] = [k]"
| "insertKey k (x # xs) = (if compareKeys k x < 0 then k # x # xs else x # insertKey k xs)"

definition sortKeys :: "string list \<Rightarrow> string list" where
  "sortKeys ks = foldr insertKey ks []"

text \<open>
  The state of the ordering loop: the stack \<^verbatim>\<open>keys\<close> of the current group (its top is
  the last element), the work queue \<^verbatim>\<open>deque\<close>, the set \<^verbatim>\<open>seen\<close>, and
  \<^verbatim>\<open>analysisOrder\<close>, a set read in insertion order.
\<close>

record OrderState =
  keys :: "string list"
  deque :: "string list"
  seen :: "string set"
  analysisOrder :: "string list"

text \<open>
  \<^verbatim>\<open>const nextKey = keys.pop(); if (nextKey) deque.push(nextKey)\<close>: the key is popped
  in any case and pushed unless it is the empty string.
\<close>

definition pushNextKey :: "OrderState \<Rightarrow> OrderState" where
  "pushNextKey s =
     (if keys s = [] then s
      else (let nextKey = last (keys s); s' = s\<lparr>keys := butlast (keys s)\<rparr>
            in if nextKey \<noteq> [] then s'\<lparr>deque := deque s' @ [nextKey]\<rparr> else s'))"

definition resolved :: "(string \<Rightarrow> string option) \<Rightarrow> string list \<Rightarrow> string list" where
  "resolved resolve deps = concat (map (\<lambda>dep. case resolve dep of None \<Rightarrow> [] | Some d \<Rightarrow> [d]) deps)"

definition hardPending ::
  "(LuaGameSubdirectory \<Rightarrow> LuaFileRecord) \<Rightarrow> (string \<Rightarrow> string list) \<Rightarrow> LuaFile \<Rightarrow> string list
    \<Rightarrow> string list" where
  "hardPending files aliases file order =
     filter (\<lambda>depName. depName \<notin> set order)
       (resolved (getDependencyIdentifier files aliases) (fileDependencies file))"

definition loosePending ::
  "(LuaGameSubdirectory \<Rightarrow> LuaFileRecord) \<Rightarrow> (string \<Rightarrow> string list) \<Rightarrow> string list
    \<Rightarrow> string set \<Rightarrow> string list \<Rightarrow> string list" where
  "loosePending files aliases loose sn order =
     filter (\<lambda>depName. \<not> (depName \<in> sn \<or> depName \<in> set order))
       (resolved (getDependencyIdentifier files aliases) loose)"

text \<open>
  One turn of the \<^verbatim>\<open>while (deque.length > 0)\<close> loop. \<^verbatim>\<open>looseDeps[key]\<close> exists for
  every key that has a file (\<open>computeLooseDeps_defined\<close> below).
\<close>

definition orderStep ::
  "(LuaGameSubdirectory \<Rightarrow> LuaFileRecord) \<Rightarrow> (string \<Rightarrow> string list)
    \<Rightarrow> (string \<Rightarrow> string list option) \<Rightarrow> OrderState \<Rightarrow> OrderState" where
  "orderStep files aliases looseDeps s =
     (case deque s of
        [] \<Rightarrow> s
      | key # dq \<Rightarrow>
          (let s1 = s\<lparr>deque := dq, seen := insert key (seen s)\<rparr>
           in (case (if key \<notin> set (analysisOrder s1) then getFile files key else None) of
                 None \<Rightarrow> pushNextKey s1
               | Some file \<Rightarrow>
                   (let depsToAdd =
                          hardPending files aliases file (analysisOrder s1)
                          @ loosePending files aliases
                              (case looseDeps key of None \<Rightarrow> [] | Some ds \<Rightarrow> ds)
                              (seen s1) (analysisOrder s1)
                    in if depsToAdd \<noteq> []
                       then s1\<lparr>deque := depsToAdd @ key # deque s1\<rparr>
                       else pushNextKey (s1\<lparr>analysisOrder := setAdd key (analysisOrder s1)\<rparr>)))))"

text \<open>
  The loop need not terminate (two files that require each other are requeued for
  ever), so it is a partial function: \<open>None\<close> is the loop that never returns.
\<close>

partial_function (option) orderLoop ::
  "(LuaGameSubdirectory \<Rightarrow> LuaFileRecord) \<Rightarrow> (string \<Rightarrow> string list)
    \<Rightarrow> (string \<Rightarrow> string list option) \<Rightarrow> OrderState \<Rightarrow> OrderState option" where
  "orderLoop files aliases looseDeps s =
     (if deque s = [] then Some s
      else orderLoop files aliases looseDeps (orderStep files aliases looseDeps s))"

declare orderLoop.simps [code]

definition orderGroup ::
  "(string list \<Rightarrow> string list) \<Rightarrow> (LuaGameSubdirectory \<Rightarrow> LuaFileRecord) \<Rightarrow> (string \<Rightarrow> string list)
    \<Rightarrow> (string \<Rightarrow> string list option) \<Rightarrow> LuaGameSubdirectory \<Rightarrow> OrderState \<Rightarrow> OrderState option" where
  "orderGroup srt files aliases looseDeps subdir s =
     (let ks = srt (map fst (files subdir))
      in if ks = [] then Some s
         else orderLoop files aliases looseDeps (s\<lparr>keys := butlast ks, deque := [last ks]\<rparr>))"

fun orderGroups ::
  "(string list \<Rightarrow> string list) \<Rightarrow> (LuaGameSubdirectory \<Rightarrow> LuaFileRecord) \<Rightarrow> (string \<Rightarrow> string list)
    \<Rightarrow> (string \<Rightarrow> string list option) \<Rightarrow> LuaGameSubdirectory list \<Rightarrow> OrderState \<Rightarrow> OrderState option" where
  "orderGroups srt files aliases looseDeps [] s = Some s"
| "orderGroups srt files aliases looseDeps (subdir # ds) s =
     (case orderGroup srt files aliases looseDeps subdir s of
        None \<Rightarrow> None
      | Some s' \<Rightarrow> orderGroups srt files aliases looseDeps ds s')"

definition determineOrder ::
  "(string list \<Rightarrow> string list) \<Rightarrow> (LuaGameSubdirectory \<Rightarrow> LuaFileRecord) \<Rightarrow> (string \<Rightarrow> string list)
    \<Rightarrow> (string \<Rightarrow> string list option) \<Rightarrow> string list option" where
  "determineOrder srt files aliases looseDeps =
     map_option analysisOrder
       (orderGroups srt files aliases looseDeps gameFileDirectories
          \<lparr>keys = [], deque = [], seen = {}, analysisOrder = []\<rparr>)"

text \<open>
  \<^verbatim>\<open>resolveDependencies\<close> from the point where every directory has been read: the loose
  dependencies are derived and the global dependencies cleared, the order is determined,
  and the files are returned in that order with their file dependencies cleared. Every
  identity in the order has a file (\<open>order_has_file\<close> below).
\<close>

definition orderedFiles ::
  "(LuaGameSubdirectory \<Rightarrow> LuaFileRecord) \<Rightarrow> string list \<Rightarrow> LuaFile list" where
  "orderedFiles files order =
     concat (map (\<lambda>k. case getFile files k of
                         None \<Rightarrow> []
                       | Some file \<Rightarrow> [file\<lparr>fileDependencies := []\<rparr>]) order)"

definition resolveOrder ::
  "(string list \<Rightarrow> string list) \<Rightarrow> (LuaGameSubdirectory \<Rightarrow> LuaFileRecord) \<Rightarrow> Analyzer \<Rightarrow> LuaFile list option" where
  "resolveOrder srt files an =
     (let looseDeps = computeLooseDeps (globalSetters an) files;
          files' = clearGlobalDependencies files
      in map_option (orderedFiles files') (determineOrder srt files' (fileAliases an) looseDeps))"

definition startPass :: "AnalysisPass \<Rightarrow> Analyzer \<Rightarrow> Analyzer" where
  "startPass p an = an\<lparr>Analyzer.pass := p, globalSetters := (\<lambda>_. [])\<rparr>"

text \<open>
  The input of a run: the input directory (a normalized path), the platform, which
  fixes the path separator \<^verbatim>\<open>path.sep\<close>, and what scanning each of the three group
  directories yields.
\<close>

datatype Platform = Posix | Win32

fun pathSepOf :: "Platform \<Rightarrow> string" where
  "pathSepOf Posix = ''/''"
| "pathSepOf Win32 = [CHR 0x5C]"

record Input =
  inputDirectory :: string
  platform :: Platform
  groupScan :: "LuaGameSubdirectory \<Rightarrow> Dirent list \<times> string option"
  keyOrder :: "string list \<Rightarrow> string list"

definition pathSep :: "Input \<Rightarrow> string" where
  "pathSep inp = pathSepOf (platform inp)"

fun subdirName :: "LuaGameSubdirectory \<Rightarrow> string" where
  "subdirName Shared = ''shared''"
| "subdirName Server = ''server''"
| "subdirName Client = ''client''"

definition readGroup ::
  "Input \<Rightarrow> LuaGameSubdirectory
    \<Rightarrow> (LuaGameSubdirectory \<Rightarrow> LuaFileRecord) \<times> Analyzer
    \<Rightarrow> (LuaGameSubdirectory \<Rightarrow> LuaFileRecord) \<times> Analyzer" where
  "readGroup inp subdir st =
     (case readDirectory (pathSep inp) (pathJoin (pathSep inp) (inputDirectory inp) (subdirName subdir))
             (groupScan inp subdir) subdir (fst st subdir, snd st) of
        (fileMap, an) \<Rightarrow> ((fst st)(subdir := fileMap), an))"

definition readAll :: "Input \<Rightarrow> Analyzer \<Rightarrow> (LuaGameSubdirectory \<Rightarrow> LuaFileRecord) \<times> Analyzer" where
  "readAll inp an = fold (readGroup inp) gameFileDirectories (\<lambda>_. [], an)"

definition resolveDependencies :: "Input \<Rightarrow> Analyzer \<Rightarrow> (LuaFile list \<times> Analyzer) option" where
  "resolveDependencies inp an =
     (case readAll inp (startPass DependencyResolution an) of
        (files, an') \<Rightarrow> map_option (\<lambda>fs. (fs, an')) (resolveOrder (keyOrder inp) files an'))"

text \<open>
  \<^verbatim>\<open>resolveTypes\<close> walks every file again, in the order given, and calls
  \<^verbatim>\<open>cleanup\<close> on it. Nothing catches what a walk throws here: \<open>None\<close> is the
  \<^verbatim>\<open>TypeError\<close> that leaves \<^verbatim>\<open>resolveTypes\<close>.
\<close>

definition resolveTypes :: "LuaFile list \<Rightarrow> Analyzer \<Rightarrow> (LuaFile list \<times> Analyzer) option" where
  "resolveTypes files an =
     (let an' = startPass TypeResolution an
      in map_option (\<lambda>fs. (fs, an'))
           (those (map (\<lambda>file. map_option cleanup (processFile (Analyzer.pass an') file)) files)))"

definition newAnalyzer :: Analyzer where
  "newAnalyzer =
     \<lparr>Analyzer.pass = DependencyResolution, errors = [], globalSetters = (\<lambda>_. []),
      fileAliases = (\<lambda>_. [])\<rparr>"

text \<open>
  A run of \<^verbatim>\<open>analyze\<close> either never returns (\<open>None\<close>), or is rejected with the
  \<^verbatim>\<open>TypeError\<close> of the second pass, or returns the files.
\<close>

datatype Outcome = Rejected | Returned "LuaFile list" Analyzer

definition analyze :: "Input \<Rightarrow> Outcome option" where
  "analyze inp =
     (case resolveDependencies inp newAnalyzer of
        None \<Rightarrow> None
      | Some (files, an) \<Rightarrow>
          (case resolveTypes files an of
             None \<Rightarrow> Some Rejected
           | Some (files', an') \<Rightarrow> Some (Returned files' an')))"


section \<open>Properties of the ordering loop\<close>

text \<open>
  The hard dependency graph: \<open>(b, a)\<close> is an edge when the file found under identity
  \<open>a\<close> requires a name that resolves to \<open>b\<close>. Aliases are only ever entered for
  files that were read, which \<open>aliasesResolve\<close> states.
\<close>

definition hardEdges ::
  "(LuaGameSubdirectory \<Rightarrow> LuaFileRecord) \<Rightarrow> (string \<Rightarrow> string list) \<Rightarrow> (string \<times> string) set" where
  "hardEdges files aliases =
     {(b, a). \<exists>file. getFile files a = Some file
        \<and> b \<in> set (resolved (getDependencyIdentifier files aliases) (fileDependencies file))}"

definition aliasesResolve ::
  "(LuaGameSubdirectory \<Rightarrow> LuaFileRecord) \<Rightarrow> (string \<Rightarrow> string list) \<Rightarrow> bool" where
  "aliasesResolve files aliases = (\<forall>nm a. a \<in> set (aliases nm) \<longrightarrow> getFile files a \<noteq> None)"

definition orderPost ::
  "(LuaGameSubdirectory \<Rightarrow> LuaFileRecord) \<Rightarrow> OrderState \<Rightarrow> OrderState \<Rightarrow> bool" where
  "orderPost files s s' =
     (seen s \<subseteq> seen s' \<and> set (analysisOrder s) \<subseteq> set (analysisOrder s')
      \<and> (\<forall>y \<in> seen s'. y \<in> seen s \<or> y \<in> set (analysisOrder s') \<or> getFile files y = None))"

definition callDone ::
  "(LuaGameSubdirectory \<Rightarrow> LuaFileRecord) \<Rightarrow> (string \<Rightarrow> string list)
    \<Rightarrow> (string \<Rightarrow> string list option) \<Rightarrow> string list \<Rightarrow> string list
    \<Rightarrow> OrderState \<Rightarrow> OrderState \<Rightarrow> bool" where
  "callDone files aliases looseDeps ds rest s s' =
     (orderLoop files aliases looseDeps s = orderLoop files aliases looseDeps s'
      \<and> (\<exists>pushed. deque s' = rest @ pushed \<and> length (keys s') + length pushed \<le> length (keys s))
      \<and> orderPost files s s'
      \<and> (\<forall>d \<in> set ds. d \<in> seen s'
            \<and> (getFile files d \<noteq> None \<longrightarrow> d \<in> set (analysisOrder s'))))"


lemma orderPost_refl: "orderPost files s s"
  by (simp add: orderPost_def)
lemma callDone_Nil: "deque s = rest \<Longrightarrow> callDone files aliases looseDeps [] rest s s"
  by (simp add: callDone_def orderPost_refl)


lemma orderPost_seen: "orderPost files s s1 \<Longrightarrow> seen s \<subseteq> seen s1"
  by (simp add: orderPost_def)

lemma orderPost_order: "orderPost files s s1 \<Longrightarrow> set (analysisOrder s) \<subseteq> set (analysisOrder s1)"
  by (simp add: orderPost_def)

lemma orderPost_new:
  "orderPost files s s1 \<Longrightarrow> y \<in> seen s1
     \<Longrightarrow> y \<in> seen s \<or> y \<in> set (analysisOrder s1) \<or> getFile files y = None"
  by (simp add: orderPost_def)

lemma orderPostI:
  "seen s \<subseteq> seen s1 \<Longrightarrow> set (analysisOrder s) \<subseteq> set (analysisOrder s1)
     \<Longrightarrow> (\<And>y. y \<in> seen s1 \<Longrightarrow> y \<in> seen s \<or> y \<in> set (analysisOrder s1) \<or> getFile files y = None)
     \<Longrightarrow> orderPost files s s1"
  by (simp add: orderPost_def)

lemma orderPost_trans:
  assumes p1: "orderPost files s s1" and p2: "orderPost files s1 s2"
  shows "orderPost files s s2"
proof (rule orderPostI)
  show "seen s \<subseteq> seen s2"
    using orderPost_seen [OF p1] orderPost_seen [OF p2] by (rule subset_trans)
  show "set (analysisOrder s) \<subseteq> set (analysisOrder s2)"
    using orderPost_order [OF p1] orderPost_order [OF p2] by (rule subset_trans)
  fix y assume y: "y \<in> seen s2"
  from orderPost_new [OF p2 y]
  consider "y \<in> seen s1" | "y \<in> set (analysisOrder s2)" | "getFile files y = None" by metis
  then show "y \<in> seen s \<or> y \<in> set (analysisOrder s2) \<or> getFile files y = None"
  proof cases
    case 1
    from orderPost_new [OF p1 1]
    consider "y \<in> seen s" | "y \<in> set (analysisOrder s1)" | "getFile files y = None" by metis
    then show ?thesis
    proof cases
      case 2
      then have "y \<in> set (analysisOrder s2)" using orderPost_order [OF p2] by (rule subsetD [rotated])
      then show ?thesis by simp
    qed simp_all
  qed simp_all
qed

lemma callDone_loop:
  "callDone files aliases looseDeps ds rest s s'
     \<Longrightarrow> orderLoop files aliases looseDeps s = orderLoop files aliases looseDeps s'"
  by (simp add: callDone_def)

lemma callDone_deque:
  "callDone files aliases looseDeps ds rest s s'
     \<Longrightarrow> \<exists>pushed. deque s' = rest @ pushed \<and> length (keys s') + length pushed \<le> length (keys s)"
  by (simp add: callDone_def)

lemma callDone_post: "callDone files aliases looseDeps ds rest s s' \<Longrightarrow> orderPost files s s'"
  by (simp add: callDone_def)

lemma callDone_seen: "callDone files aliases looseDeps ds rest s s' \<Longrightarrow> d \<in> set ds \<Longrightarrow> d \<in> seen s'"
  by (simp add: callDone_def)

lemma callDone_ordered:
  "callDone files aliases looseDeps ds rest s s' \<Longrightarrow> d \<in> set ds \<Longrightarrow> getFile files d \<noteq> None
     \<Longrightarrow> d \<in> set (analysisOrder s')"
  by (simp add: callDone_def)

lemma callDoneI:
  "orderLoop files aliases looseDeps s = orderLoop files aliases looseDeps s'
   \<Longrightarrow> deque s' = rest @ pushed \<Longrightarrow> length (keys s') + length pushed \<le> length (keys s)
   \<Longrightarrow> orderPost files s s'
   \<Longrightarrow> (\<And>d. d \<in> set ds \<Longrightarrow> d \<in> seen s')
   \<Longrightarrow> (\<And>d. d \<in> set ds \<Longrightarrow> getFile files d \<noteq> None \<Longrightarrow> d \<in> set (analysisOrder s'))
   \<Longrightarrow> callDone files aliases looseDeps ds rest s s'"
  unfolding callDone_def by (intro conjI exI [of _ pushed] ballI impI) simp_all

lemma callDone_append:
  assumes c1: "callDone files aliases looseDeps ds1 (ds2 @ rest) s s1"
      and c2: "\<And>pushed. deque s1 = (ds2 @ rest) @ pushed
              \<Longrightarrow> callDone files aliases looseDeps ds2 (rest @ pushed) s1 s2"
  shows "callDone files aliases looseDeps (ds1 @ ds2) rest s s2"
proof -
  obtain p1 where p1: "deque s1 = (ds2 @ rest) @ p1" "length (keys s1) + length p1 \<le> length (keys s)"
    using callDone_deque [OF c1] by (elim exE conjE)
  have c2': "callDone files aliases looseDeps ds2 (rest @ p1) s1 s2"
    using p1(1) by (rule c2)
  obtain p2 where p2: "deque s2 = (rest @ p1) @ p2" "length (keys s2) + length p2 \<le> length (keys s1)"
    using callDone_deque [OF c2'] by (elim exE conjE)
  show ?thesis
  proof (rule callDoneI [where pushed = "p1 @ p2"])
    show "orderLoop files aliases looseDeps s = orderLoop files aliases looseDeps s2"
      using callDone_loop [OF c1] callDone_loop [OF c2'] by (rule trans)
    show "deque s2 = rest @ p1 @ p2" using p2(1) by simp
    show "length (keys s2) + length (p1 @ p2) \<le> length (keys s)"
      using p1(2) p2(2) by simp
    show "orderPost files s s2"
      using callDone_post [OF c1] callDone_post [OF c2'] by (rule orderPost_trans)
  next
    fix d assume d: "d \<in> set (ds1 @ ds2)"
    show "d \<in> seen s2"
    proof (cases "d \<in> set ds1")
      case True
      then have "d \<in> seen s1" by (rule callDone_seen [OF c1])
      then show ?thesis using orderPost_seen [OF callDone_post [OF c2']] by (rule subsetD [rotated])
    next
      case False
      then have "d \<in> set ds2" using d by simp
      then show ?thesis by (rule callDone_seen [OF c2'])
    qed
  next
    fix d assume d: "d \<in> set (ds1 @ ds2)" and f: "getFile files d \<noteq> None"
    show "d \<in> set (analysisOrder s2)"
    proof (cases "d \<in> set ds1")
      case True
      then have "d \<in> set (analysisOrder s1)" using f by (rule callDone_ordered [OF c1])
      then show ?thesis using orderPost_order [OF callDone_post [OF c2']] by (rule subsetD [rotated])
    next
      case False
      then have "d \<in> set ds2" using d by simp
      then show ?thesis using f by (rule callDone_ordered [OF c2'])
    qed
  qed
qed

lemma callDone_list:
  assumes "deque s = ds @ rest"
      and "\<And>d s1 rest1. d \<in> set ds \<Longrightarrow> orderPost files s s1 \<Longrightarrow> deque s1 = d # rest1
              \<Longrightarrow> \<exists>s2. callDone files aliases looseDeps [d] rest1 s1 s2"
  shows "\<exists>s'. callDone files aliases looseDeps ds rest s s'"
  using assms
proof (induction ds arbitrary: s rest)
  case Nil
  from Nil(1) have "deque s = rest" by simp
  then have "callDone files aliases looseDeps [] rest s s" by (rule callDone_Nil)
  then show ?case ..
next
  case (Cons d ds)
  have dq: "deque s = d # (ds @ rest)" using Cons.prems(1) by simp
  have din: "d \<in> set (d # ds)" by simp
  from Cons.prems(2) [OF din orderPost_refl dq]
  obtain s1 where s1: "callDone files aliases looseDeps [d] (ds @ rest) s s1" ..
  have po1: "orderPost files s s1" using s1 by (rule callDone_post)
  obtain p1 where p1: "deque s1 = (ds @ rest) @ p1"
    using callDone_deque [OF s1] by (elim exE conjE)
  have p1': "deque s1 = ds @ (rest @ p1)" using p1 by simp
  have "\<exists>s2. callDone files aliases looseDeps ds (rest @ p1) s1 s2"
  proof (rule Cons.IH [OF p1'])
    fix e s3 rest3
    assume e: "e \<in> set ds" and po3: "orderPost files s1 s3" and dq3: "deque s3 = e # rest3"
    have ein: "e \<in> set (d # ds)" using e by simp
    have "orderPost files s s3" using po1 po3 by (rule orderPost_trans)
    with ein show "\<exists>s2. callDone files aliases looseDeps [e] rest3 s3 s2"
      using dq3 by (rule Cons.prems(2))
  qed
  then obtain s2 where s2: "callDone files aliases looseDeps ds (rest @ p1) s1 s2" ..
  have "callDone files aliases looseDeps ([d] @ ds) rest s s2"
  proof (rule callDone_append [OF s1])
    fix pushed assume "deque s1 = (ds @ rest) @ pushed"
    with p1 have "pushed = p1" by simp
    with s2 show "callDone files aliases looseDeps ds (rest @ pushed) s1 s2" by simp
  qed
  then have "callDone files aliases looseDeps (d # ds) rest s s2" by simp
  then show ?case ..
qed


definition looseOf :: "(string \<Rightarrow> string list option) \<Rightarrow> string \<Rightarrow> string list" where
  "looseOf looseDeps key = (case looseDeps key of None \<Rightarrow> [] | Some ds \<Rightarrow> ds)"

lemma orderLoop_step:
  "deque s \<noteq> [] \<Longrightarrow> orderLoop files aliases looseDeps s
     = orderLoop files aliases looseDeps (orderStep files aliases looseDeps s)"
  by (subst orderLoop.simps) simp

lemma seen_pushNextKey [simp]: "seen (pushNextKey s) = seen s"
  by (simp add: pushNextKey_def Let_def)

lemma analysisOrder_pushNextKey [simp]: "analysisOrder (pushNextKey s) = analysisOrder s"
  by (simp add: pushNextKey_def Let_def)

lemma deque_pushNextKey:
  "\<exists>pushed. deque (pushNextKey s) = deque s @ pushed
     \<and> length (keys (pushNextKey s)) + length pushed \<le> length (keys s)"
proof (cases "keys s = []")
  case True
  then show ?thesis by (simp add: pushNextKey_def)
next
  case False
  show ?thesis
  proof (cases "last (keys s) = []")
    case True
    with False have "deque (pushNextKey s) = deque s @ []"
      "length (keys (pushNextKey s)) + length ([] :: string list) \<le> length (keys s)"
      by (simp_all add: pushNextKey_def Let_def)
    then show ?thesis by (intro exI conjI)
  next
    case nonempty: False
    with False have "deque (pushNextKey s) = deque s @ [last (keys s)]"
      "length (keys (pushNextKey s)) + length [last (keys s)] \<le> length (keys s)"
      by (simp_all add: pushNextKey_def Let_def)
    then show ?thesis by (intro exI conjI)
  qed
qed

lemma orderStep_drop:
  assumes "deque s = x # rest" and "x \<in> set (analysisOrder s) \<or> getFile files x = None"
  shows "orderStep files aliases looseDeps s = pushNextKey (s\<lparr>deque := rest, seen := insert x (seen s)\<rparr>)"
  using assms by (auto simp: orderStep_def Let_def)

lemma orderStep_finalize:
  assumes "deque s = x # rest" and "x \<notin> set (analysisOrder s)" and "getFile files x = Some file"
      and "hardPending files aliases file (analysisOrder s) = []"
      and "loosePending files aliases (looseOf looseDeps x) (insert x (seen s)) (analysisOrder s) = []"
  shows "orderStep files aliases looseDeps s
           = pushNextKey (s\<lparr>deque := rest, seen := insert x (seen s),
                             analysisOrder := setAdd x (analysisOrder s)\<rparr>)"
  using assms by (simp add: orderStep_def Let_def looseOf_def)

lemma orderStep_requeue:
  assumes "deque s = x # rest" and "x \<notin> set (analysisOrder s)" and "getFile files x = Some file"
      and "hardPending files aliases file (analysisOrder s)
             @ loosePending files aliases (looseOf looseDeps x) (insert x (seen s)) (analysisOrder s) \<noteq> []"
  shows "orderStep files aliases looseDeps s
           = s\<lparr>deque := (hardPending files aliases file (analysisOrder s)
                @ loosePending files aliases (looseOf looseDeps x) (insert x (seen s)) (analysisOrder s))
                @ x # rest,
               seen := insert x (seen s)\<rparr>"
  using assms by (simp add: orderStep_def Let_def looseOf_def)

lemma call_drop:
  assumes dq: "deque s = x # rest" and c: "x \<in> set (analysisOrder s) \<or> getFile files x = None"
  shows "callDone files aliases looseDeps [x] rest s (orderStep files aliases looseDeps s)"
proof -
  let ?s1 = "s\<lparr>deque := rest, seen := insert x (seen s)\<rparr>"
  have st: "orderStep files aliases looseDeps s = pushNextKey ?s1"
    using dq c by (rule orderStep_drop)
  obtain pushed where p: "deque (pushNextKey ?s1) = deque ?s1 @ pushed"
      "length (keys (pushNextKey ?s1)) + length pushed \<le> length (keys ?s1)"
    using deque_pushNextKey [of ?s1] by (elim exE conjE)
  show ?thesis
  proof (rule callDoneI [where pushed = pushed])
    show "orderLoop files aliases looseDeps s
            = orderLoop files aliases looseDeps (orderStep files aliases looseDeps s)"
      using dq by (intro orderLoop_step) simp
    show "deque (orderStep files aliases looseDeps s) = rest @ pushed"
      using p(1) st by simp
    show "length (keys (orderStep files aliases looseDeps s)) + length pushed \<le> length (keys s)"
      using p(2) st by simp
    show "orderPost files s (orderStep files aliases looseDeps s)"
    proof (rule orderPostI)
      fix y assume "y \<in> seen (orderStep files aliases looseDeps s)"
      then have "y = x \<or> y \<in> seen s" using st by simp
      then show "y \<in> seen s \<or> y \<in> set (analysisOrder (orderStep files aliases looseDeps s))
                   \<or> getFile files y = None"
        using c st by auto
    qed (simp_all add: st subset_insertI)
  next
    fix d assume "d \<in> set [x]"
    then show "d \<in> seen (orderStep files aliases looseDeps s)" using st by simp
  next
    fix d assume "d \<in> set [x]" "getFile files d \<noteq> None"
    then show "d \<in> set (analysisOrder (orderStep files aliases looseDeps s))"
      using c st by auto
  qed
qed

lemma call_finalize:
  assumes dq: "deque s = x # rest" and n: "x \<notin> set (analysisOrder s)"
      and f: "getFile files x = Some file"
      and h: "hardPending files aliases file (analysisOrder s) = []"
      and l: "loosePending files aliases (looseOf looseDeps x) (insert x (seen s)) (analysisOrder s) = []"
  shows "callDone files aliases looseDeps [x] rest s (orderStep files aliases looseDeps s)"
proof -
  let ?s1 = "s\<lparr>deque := rest, seen := insert x (seen s), analysisOrder := setAdd x (analysisOrder s)\<rparr>"
  have st: "orderStep files aliases looseDeps s = pushNextKey ?s1"
    using dq n f h l by (rule orderStep_finalize)
  obtain pushed where p: "deque (pushNextKey ?s1) = deque ?s1 @ pushed"
      "length (keys (pushNextKey ?s1)) + length pushed \<le> length (keys ?s1)"
    using deque_pushNextKey [of ?s1] by (elim exE conjE)
  have ord: "set (analysisOrder (orderStep files aliases looseDeps s)) = insert x (set (analysisOrder s))"
    using st n by (simp add: setAdd_def)
  show ?thesis
  proof (rule callDoneI [where pushed = pushed])
    show "orderLoop files aliases looseDeps s
            = orderLoop files aliases looseDeps (orderStep files aliases looseDeps s)"
      using dq by (intro orderLoop_step) simp
    show "deque (orderStep files aliases looseDeps s) = rest @ pushed"
      using p(1) st by simp
    show "length (keys (orderStep files aliases looseDeps s)) + length pushed \<le> length (keys s)"
      using p(2) st by simp
    show "orderPost files s (orderStep files aliases looseDeps s)"
    proof (rule orderPostI)
      fix y assume "y \<in> seen (orderStep files aliases looseDeps s)"
      then have "y = x \<or> y \<in> seen s" using st by simp
      then show "y \<in> seen s \<or> y \<in> set (analysisOrder (orderStep files aliases looseDeps s))
                   \<or> getFile files y = None"
        using ord by auto
    next
      show "set (analysisOrder s) \<subseteq> set (analysisOrder (orderStep files aliases looseDeps s))"
        using ord by (simp add: subset_insertI)
    qed (simp add: st subset_insertI)
  next
    fix d assume "d \<in> set [x]"
    then show "d \<in> seen (orderStep files aliases looseDeps s)" using st by simp
  next
    fix d assume "d \<in> set [x]" "getFile files d \<noteq> None"
    then show "d \<in> set (analysisOrder (orderStep files aliases looseDeps s))"
      using ord by simp
  qed
qed


lemma getFileIn_Some:
  "getFileIn ds files nm = Some file \<Longrightarrow> \<exists>d \<in> set ds. map_of (files d) nm = Some file"
  by (induction ds) (auto split: option.splits)

lemma finite_files: "finite {n. getFile files n \<noteq> None}"
proof (rule finite_subset)
  show "{n. getFile files n \<noteq> None} \<subseteq> (\<Union>d \<in> set gameFileDirectories. fst ` set (files d))"
  proof
    fix n assume "n \<in> {n. getFile files n \<noteq> None}"
    then obtain fl where "getFileIn gameFileDirectories files n = Some fl"
      by (auto simp: getFile_def)
    then obtain d where "d \<in> set gameFileDirectories" "map_of (files d) n = Some fl"
      using getFileIn_Some by blast
    then show "n \<in> (\<Union>d \<in> set gameFileDirectories. fst ` set (files d))"
      by (force dest: map_of_SomeD)
  qed
  show "finite (\<Union>d \<in> set gameFileDirectories. fst ` set (files d))" by simp
qed

lemma set_resolved: "set (resolved r deps) = {d. \<exists>dep \<in> set deps. r dep = Some d}"
  by (induction deps) (auto simp: resolved_def split: option.splits)

lemma resolve_has_file:
  assumes "aliasesResolve files aliases" and "getDependencyIdentifier files aliases dep = Some d"
  shows "getFile files d \<noteq> None"
proof (cases "getFile files dep = None")
  case True
  then have "d \<in> set (aliases dep)"
    using assms(2) by (auto simp: getDependencyIdentifier_def split: list.splits)
  then show ?thesis using assms(1) by (simp add: aliasesResolve_def)
next
  case False
  then show ?thesis using assms(2) by (simp add: getDependencyIdentifier_def)
qed

lemma resolved_has_file:
  assumes "aliasesResolve files aliases"
      and "d \<in> set (resolved (getDependencyIdentifier files aliases) deps)"
  shows "getFile files d \<noteq> None"
  using assms resolve_has_file by (auto simp: set_resolved)


lemma hardPending_subset:
  "set (hardPending files aliases fl order)
     \<subseteq> set (resolved (getDependencyIdentifier files aliases) (fileDependencies fl))"
  by (simp add: hardPending_def)

lemma hardPending_empty:
  assumes "\<And>d. d \<in> set (resolved (getDependencyIdentifier files aliases) (fileDependencies fl))
             \<Longrightarrow> d \<in> set order"
  shows "hardPending files aliases fl order = []"
  using assms by (simp add: hardPending_def filter_empty_conv)

lemma loosePending_empty:
  assumes "\<And>d. d \<in> set (resolved (getDependencyIdentifier files aliases) loose)
             \<Longrightarrow> d \<in> sn \<or> d \<in> set order"
  shows "loosePending files aliases loose sn order = []"
  using assms by (simp add: loosePending_def filter_empty_conv)

lemma in_hardPending:
  "d \<in> set (resolved (getDependencyIdentifier files aliases) (fileDependencies fl))
    \<Longrightarrow> d \<notin> set order \<Longrightarrow> d \<in> set (hardPending files aliases fl order)"
  by (simp add: hardPending_def)

lemma in_loosePending:
  "d \<in> set (resolved (getDependencyIdentifier files aliases) loose)
    \<Longrightarrow> d \<notin> sn \<Longrightarrow> d \<notin> set order \<Longrightarrow> d \<in> set (loosePending files aliases loose sn order)"
  by (simp add: loosePending_def)

lemma loosePending_unseen:
  "d \<in> set (loosePending files aliases loose sn order) \<Longrightarrow> d \<notin> sn"
  by (simp add: loosePending_def)

lemma order_call_aux:
  assumes wfR: "wf (hardEdges files aliases)" and al: "aliasesResolve files aliases"
  shows "\<forall>x s rest. p = (card ({n. getFile files n \<noteq> None} - insert x (seen s)), x)
           \<longrightarrow> deque s = x # rest
           \<longrightarrow> (\<exists>s'. callDone files aliases looseDeps [x] rest s s')"
  using wf_lex_prod [OF wf_less_than wfR]
proof (induction p rule: wf_induct_rule)
  case (less p)
  let ?N = "{n. getFile files n \<noteq> None}"
  have fin: "finite ?N" by (rule finite_files)
  show ?case
  proof (intro allI impI)
    fix x :: string and s :: OrderState and rest :: "string list"
    assume p: "p = (card (?N - insert x (seen s)), x)" and dq: "deque s = x # rest"
    show "\<exists>s'. callDone files aliases looseDeps [x] rest s s'"
    proof (cases "x \<in> set (analysisOrder s) \<or> getFile files x = None")
      case True
      with dq have "callDone files aliases looseDeps [x] rest s (orderStep files aliases looseDeps s)"
        by (rule call_drop)
      then show ?thesis ..
    next
      case False
      then have n: "x \<notin> set (analysisOrder s)" by simp
      from False obtain fl where f: "getFile files x = Some fl" by auto
      let ?H = "hardPending files aliases fl (analysisOrder s)"
      let ?L = "loosePending files aliases (looseOf looseDeps x) (insert x (seen s)) (analysisOrder s)"
      show ?thesis
      proof (cases "?H @ ?L = []")
        case True
        then have "?H = []" "?L = []" by simp_all
        with dq n f have "callDone files aliases looseDeps [x] rest s (orderStep files aliases looseDeps s)"
          by (rule call_finalize)
        then show ?thesis ..
      next
        case deps: False
        let ?s2 = "s\<lparr>deque := (?H @ ?L) @ x # rest, seen := insert x (seen s)\<rparr>"
        have st: "orderStep files aliases looseDeps s = ?s2"
          using dq n f deps by (rule orderStep_requeue)
        have loop2: "orderLoop files aliases looseDeps s = orderLoop files aliases looseDeps ?s2"
          using orderLoop_step [of s files aliases looseDeps] dq st by simp
        have dq2: "deque ?s2 = (?H @ ?L) @ (x # rest)" by simp
        have "\<exists>s3. callDone files aliases looseDeps (?H @ ?L) (x # rest) ?s2 s3"
        proof (rule callDone_list [OF dq2])
          fix d :: string and s1 :: OrderState and rest1 :: "string list"
          assume d: "d \<in> set (?H @ ?L)" and po: "orderPost files ?s2 s1" and dq1: "deque s1 = d # rest1"
          show "\<exists>s2. callDone files aliases looseDeps [d] rest1 s1 s2"
          proof (cases "d \<in> set (analysisOrder s1) \<or> getFile files d = None")
            case True
            with dq1 have "callDone files aliases looseDeps [d] rest1 s1 (orderStep files aliases looseDeps s1)"
              by (rule call_drop)
            then show ?thesis ..
          next
            case nd: False
            have sub: "insert x (seen s) \<subseteq> seen s1"
              using orderPost_seen [OF po] by simp
            have le: "card (?N - insert d (seen s1)) \<le> card (?N - insert x (seen s))"
              using fin sub by (intro card_mono) auto
            have "((card (?N - insert d (seen s1)), d), p) \<in> less_than <*lex*> hardEdges files aliases"
            proof (cases "d \<in> set ?H")
              case True
              then have "d \<in> set (resolved (getDependencyIdentifier files aliases) (fileDependencies fl))"
                using hardPending_subset by blast
              then have "(d, x) \<in> hardEdges files aliases"
                using f by (auto simp: hardEdges_def)
              then show ?thesis using le p by auto
            next
              case False
              then have "d \<in> set ?L" using d by simp
              then have "d \<notin> insert x (seen s)" by (rule loosePending_unseen)
              then have "d \<notin> seen ?s2" by simp
              moreover have "d \<notin> set (analysisOrder s1)" "getFile files d \<noteq> None" using nd by simp_all
              ultimately have "d \<notin> seen s1" using orderPost_new [OF po, of d] by auto
              then have "?N - insert d (seen s1) \<subset> ?N - seen s1"
                using nd by auto
              then have "card (?N - insert d (seen s1)) < card (?N - seen s1)"
                using fin by (intro psubset_card_mono) auto
              moreover have "card (?N - seen s1) \<le> card (?N - insert x (seen s))"
                using fin sub by (intro card_mono) auto
              ultimately show ?thesis using p by auto
            qed
            from less.IH [OF this]
            show ?thesis using dq1 by blast
          qed
        qed
        then obtain s3 where s3: "callDone files aliases looseDeps (?H @ ?L) (x # rest) ?s2 s3" ..
        obtain p3 where p3: "deque s3 = (x # rest) @ p3" "length (keys s3) + length p3 \<le> length (keys ?s2)"
          using callDone_deque [OF s3] by (elim exE conjE)
        have dq3: "deque s3 = x # (rest @ p3)" using p3(1) by simp
        have po3: "orderPost files ?s2 s3" using s3 by (rule callDone_post)
        have "callDone files aliases looseDeps [x] (rest @ p3) s3 (orderStep files aliases looseDeps s3)"
        proof (cases "x \<in> set (analysisOrder s3)")
          case True
          then have "x \<in> set (analysisOrder s3) \<or> getFile files x = None" by simp
          with dq3 show ?thesis by (rule call_drop)
        next
          case n3: False
          have h3: "hardPending files aliases fl (analysisOrder s3) = []"
          proof (rule hardPending_empty)
            fix d assume d: "d \<in> set (resolved (getDependencyIdentifier files aliases) (fileDependencies fl))"
            show "d \<in> set (analysisOrder s3)"
            proof (cases "d \<in> set (analysisOrder s)")
              case True
              then show ?thesis using orderPost_order [OF po3] by auto
            next
              case False
              with d have "d \<in> set ?H" by (rule in_hardPending)
              then have "d \<in> set (?H @ ?L)" by simp
              moreover have "getFile files d \<noteq> None" using al d by (rule resolved_has_file)
              ultimately show ?thesis by (rule callDone_ordered [OF s3])
            qed
          qed
          have l3: "loosePending files aliases (looseOf looseDeps x) (insert x (seen s3)) (analysisOrder s3) = []"
          proof (rule loosePending_empty)
            fix d assume d: "d \<in> set (resolved (getDependencyIdentifier files aliases) (looseOf looseDeps x))"
            show "d \<in> insert x (seen s3) \<or> d \<in> set (analysisOrder s3)"
            proof (cases "d \<in> insert x (seen s) \<or> d \<in> set (analysisOrder s)")
              case True
              then show ?thesis using orderPost_order [OF po3] orderPost_seen [OF po3] by auto
            next
              case False
              with d have "d \<in> set ?L" by (intro in_loosePending) simp_all
              then have "d \<in> set (?H @ ?L)" by simp
              then have "d \<in> seen s3" by (rule callDone_seen [OF s3])
              then show ?thesis by simp
            qed
          qed
          from dq3 n3 f h3 l3 show ?thesis by (rule call_finalize)
        qed
        then obtain s4 where s4: "callDone files aliases looseDeps [x] (rest @ p3) s3 s4" ..
        obtain p4 where p4: "deque s4 = (rest @ p3) @ p4" "length (keys s4) + length p4 \<le> length (keys s3)"
          using callDone_deque [OF s4] by (elim exE conjE)
        have po4: "orderPost files s3 s4" using s4 by (rule callDone_post)
        have x4: "x \<in> set (analysisOrder s4)"
          using callDone_ordered [OF s4, of x] f by simp
        have "callDone files aliases looseDeps [x] rest s s4"
        proof (rule callDoneI [where pushed = "p3 @ p4"])
          show "orderLoop files aliases looseDeps s = orderLoop files aliases looseDeps s4"
            using loop2 callDone_loop [OF s3] callDone_loop [OF s4] by simp
          show "deque s4 = rest @ p3 @ p4" using p4(1) by simp
          show "length (keys s4) + length (p3 @ p4) \<le> length (keys s)"
            using p3(2) p4(2) by simp
          show "orderPost files s s4"
          proof (rule orderPostI)
            show "seen s \<subseteq> seen s4"
              using orderPost_seen [OF po3] orderPost_seen [OF po4] by auto
            show "set (analysisOrder s) \<subseteq> set (analysisOrder s4)"
              using orderPost_order [OF po3] orderPost_order [OF po4] by auto
            fix y assume y: "y \<in> seen s4"
            have "orderPost files ?s2 s4" using po3 po4 by (rule orderPost_trans)
            from orderPost_new [OF this y]
            show "y \<in> seen s \<or> y \<in> set (analysisOrder s4) \<or> getFile files y = None"
              using x4 by auto
          qed
        next
          fix d assume "d \<in> set [x]"
          then show "d \<in> seen s4" using callDone_seen [OF s4] by simp
        next
          fix d assume "d \<in> set [x]" "getFile files d \<noteq> None"
          then show "d \<in> set (analysisOrder s4)" using x4 by simp
        qed
        then show ?thesis ..
      qed
    qed
  qed
qed

lemma order_call:
  assumes "wf (hardEdges files aliases)" and "aliasesResolve files aliases"
      and "deque s = x # rest"
  shows "\<exists>s'. callDone files aliases looseDeps [x] rest s s'"
  using order_call_aux [OF assms(1,2)] assms(3) by simp


lemma orderLoop_terminates_aux:
  assumes wfR: "wf (hardEdges files aliases)" and al: "aliasesResolve files aliases"
  shows "\<forall>s. n = length (keys s) + length (deque s)
           \<longrightarrow> (\<exists>s'. orderLoop files aliases looseDeps s = Some s')"
proof (induction n rule: less_induct)
  case (less n)
  show ?case
  proof (intro allI impI)
    fix s :: OrderState
    assume n: "n = length (keys s) + length (deque s)"
    show "\<exists>s'. orderLoop files aliases looseDeps s = Some s'"
    proof (cases "deque s")
      case Nil
      then have "orderLoop files aliases looseDeps s = Some s"
        by (subst orderLoop.simps) simp
      then show ?thesis ..
    next
      case (Cons x rest)
      from order_call [OF wfR al Cons]
      obtain s1 where s1: "callDone files aliases looseDeps [x] rest s s1" ..
      obtain pushed where p: "deque s1 = rest @ pushed" "length (keys s1) + length pushed \<le> length (keys s)"
        using callDone_deque [OF s1] by (elim exE conjE)
      have "length (keys s1) + length (deque s1) < n"
        using p n Cons by simp
      from less.IH [OF this]
      obtain s' where "orderLoop files aliases looseDeps s1 = Some s'" by auto
      then have "orderLoop files aliases looseDeps s = Some s'"
        using callDone_loop [OF s1] by simp
      then show ?thesis ..
    qed
  qed
qed

lemma orderLoop_terminates:
  assumes "wf (hardEdges files aliases)" and "aliasesResolve files aliases"
  shows "\<exists>s'. orderLoop files aliases looseDeps s = Some s'"
  using orderLoop_terminates_aux [OF assms] by simp

lemma orderGroup_terminates:
  assumes "wf (hardEdges files aliases)" and "aliasesResolve files aliases"
  shows "\<exists>s'. orderGroup srt files aliases looseDeps subdir s = Some s'"
  using orderLoop_terminates [OF assms] by (simp add: orderGroup_def Let_def)

lemma orderGroups_terminates:
  assumes "wf (hardEdges files aliases)" and "aliasesResolve files aliases"
  shows "\<exists>s'. orderGroups srt files aliases looseDeps ds s = Some s'"
proof (induction ds arbitrary: s)
  case Nil
  show ?case by simp
next
  case (Cons d ds)
  obtain s1 where "orderGroup srt files aliases looseDeps d s = Some s1"
    using orderGroup_terminates [OF assms] by blast
  then show ?case using Cons.IH [of s1] by simp
qed

lemma determineOrder_terminates:
  assumes "wf (hardEdges files aliases)" and "aliasesResolve files aliases"
  shows "\<exists>order. determineOrder srt files aliases looseDeps = Some order"
  using orderGroups_terminates [OF assms] by (simp add: determineOrder_def)

lemma orderLoop_invariant:
  assumes run: "orderLoop files aliases looseDeps s = Some s'"
      and init: "I s"
      and step: "\<And>t. I t \<Longrightarrow> deque t \<noteq> [] \<Longrightarrow> I (orderStep files aliases looseDeps t)"
  shows "I s' \<and> deque s' = []"
proof -
  let ?P = "\<lambda>f a l t t'. f = files \<longrightarrow> a = aliases \<longrightarrow> l = looseDeps \<longrightarrow> I t \<longrightarrow> I t' \<and> deque t' = []"
  have "?P files aliases looseDeps s s'"
  proof (rule orderLoop.raw_induct [where P = ?P, OF _ run])
    fix loop f a l t t'
    assume IH: "\<And>a' l' t1 b y. loop a' l' t1 b = Some y \<Longrightarrow> ?P a' l' t1 b y"
      and eq: "(if deque t = [] then Some t else loop f a l (orderStep f a l t)) = Some t'"
    show "?P f a l t t'"
    proof (intro impI)
      assume f: "f = files" and a: "a = aliases" and l: "l = looseDeps" and i: "I t"
      show "I t' \<and> deque t' = []"
      proof (cases "deque t = []")
        case True
        then show ?thesis using eq i by simp
      next
        case False
        then have "loop f a l (orderStep f a l t) = Some t'" using eq by simp
        from IH [OF this] f a l step [OF i False]
        show ?thesis by simp
      qed
    qed
  qed
  then show ?thesis using init by simp
qed


definition precedes :: "'a \<Rightarrow> 'a \<Rightarrow> 'a list \<Rightarrow> bool" where
  "precedes b a xs = (a \<in> set xs \<and> b \<in> set (takeWhile (\<lambda>y. y \<noteq> a) xs))"

definition orderInv ::
  "(LuaGameSubdirectory \<Rightarrow> LuaFileRecord) \<Rightarrow> (string \<Rightarrow> string list) \<Rightarrow> string list \<Rightarrow> bool" where
  "orderInv files aliases order =
     (distinct order
      \<and> (\<forall>a \<in> set order. \<exists>fl. getFile files a = Some fl
            \<and> (\<forall>b \<in> set (resolved (getDependencyIdentifier files aliases) (fileDependencies fl)).
                  precedes b a order)))"

definition groupInv :: "string set \<Rightarrow> OrderState \<Rightarrow> bool" where
  "groupInv K t =
     (K \<subseteq> set (keys t) \<union> set (deque t) \<union> set (analysisOrder t)
      \<and> (deque t = [] \<longrightarrow> keys t = []) \<and> [] \<notin> set (keys t))"

lemma orderStep_cases:
  assumes "deque t = key # dq"
  obtains
    (drop) "key \<in> set (analysisOrder t) \<or> getFile files key = None"
      "orderStep files aliases looseDeps t = pushNextKey (t\<lparr>deque := dq, seen := insert key (seen t)\<rparr>)"
  | (finalize) fl where "key \<notin> set (analysisOrder t)" "getFile files key = Some fl"
      "hardPending files aliases fl (analysisOrder t) = []"
      "orderStep files aliases looseDeps t
         = pushNextKey (t\<lparr>deque := dq, seen := insert key (seen t),
                          analysisOrder := analysisOrder t @ [key]\<rparr>)"
  | (requeue) deps where "deps \<noteq> []"
      "orderStep files aliases looseDeps t = t\<lparr>deque := deps @ key # dq, seen := insert key (seen t)\<rparr>"
proof (cases "key \<in> set (analysisOrder t) \<or> getFile files key = None")
  case True
  with assms have "orderStep files aliases looseDeps t
      = pushNextKey (t\<lparr>deque := dq, seen := insert key (seen t)\<rparr>)"
    by (rule orderStep_drop)
  with True show ?thesis by (rule drop)
next
  case False
  then have n: "key \<notin> set (analysisOrder t)" by simp
  from False obtain fl where f: "getFile files key = Some fl" by auto
  let ?H = "hardPending files aliases fl (analysisOrder t)"
  let ?L = "loosePending files aliases (looseOf looseDeps key) (insert key (seen t)) (analysisOrder t)"
  show ?thesis
  proof (cases "?H @ ?L = []")
    case True
    then have e: "?H = []" "?L = []" by simp_all
    have "orderStep files aliases looseDeps t
        = pushNextKey (t\<lparr>deque := dq, seen := insert key (seen t),
                         analysisOrder := setAdd key (analysisOrder t)\<rparr>)"
      using assms n f e by (rule orderStep_finalize)
    then have "orderStep files aliases looseDeps t
        = pushNextKey (t\<lparr>deque := dq, seen := insert key (seen t),
                         analysisOrder := analysisOrder t @ [key]\<rparr>)"
      using n by (simp add: setAdd_def)
    with n f e(1) show ?thesis by (rule finalize)
  next
    case False
    have "orderStep files aliases looseDeps t
        = t\<lparr>deque := (?H @ ?L) @ key # dq, seen := insert key (seen t)\<rparr>"
      using assms n f False by (rule orderStep_requeue)
    with False show ?thesis by (rule requeue)
  qed
qed

lemma takeWhile_snoc_new: "a \<notin> set xs \<Longrightarrow> takeWhile (\<lambda>y. y \<noteq> a) (xs @ [a]) = xs"
  by (induction xs) auto

lemma precedes_snoc_new:
  "b \<in> set xs \<Longrightarrow> a \<notin> set xs \<Longrightarrow> precedes b a (xs @ [a])"
  by (simp add: precedes_def takeWhile_snoc_new)

lemma takeWhile_snoc_old:
  "a \<in> set xs \<Longrightarrow> takeWhile (\<lambda>y. y \<noteq> a) (xs @ [c]) = takeWhile (\<lambda>y. y \<noteq> a) xs"
  by (induction xs) auto

lemma precedes_snoc_old:
  "precedes b a xs \<Longrightarrow> precedes b a (xs @ [c])"
  by (simp add: precedes_def takeWhile_snoc_old)

lemma orderInv_snoc:
  assumes inv: "orderInv files aliases order" and n: "key \<notin> set order"
      and f: "getFile files key = Some fl"
      and h: "hardPending files aliases fl order = []"
  shows "orderInv files aliases (order @ [key])"
  unfolding orderInv_def
proof (intro conjI ballI)
  show "distinct (order @ [key])" using inv n by (simp add: orderInv_def)
next
  fix a assume a: "a \<in> set (order @ [key])"
  show "\<exists>fl. getFile files a = Some fl
          \<and> (\<forall>b \<in> set (resolved (getDependencyIdentifier files aliases) (fileDependencies fl)).
                precedes b a (order @ [key]))"
  proof (cases "a = key")
    case True
    have "\<forall>b \<in> set (resolved (getDependencyIdentifier files aliases) (fileDependencies fl)).
            precedes b key (order @ [key])"
    proof
      fix b assume "b \<in> set (resolved (getDependencyIdentifier files aliases) (fileDependencies fl))"
      then have "b \<in> set order"
        using h by (auto simp: hardPending_def filter_empty_conv)
      then show "precedes b key (order @ [key])" using n by (rule precedes_snoc_new)
    qed
    with f True show ?thesis by simp
  next
    case False
    then have "a \<in> set order" using a by simp
    then have "\<exists>fl. getFile files a = Some fl
          \<and> (\<forall>b \<in> set (resolved (getDependencyIdentifier files aliases) (fileDependencies fl)).
                precedes b a order)"
      using inv by (simp add: orderInv_def)
    then obtain fa where fa: "getFile files a = Some fa"
      "\<forall>b \<in> set (resolved (getDependencyIdentifier files aliases) (fileDependencies fa)).
            precedes b a order"
      by (elim exE conjE)
    have "\<forall>b \<in> set (resolved (getDependencyIdentifier files aliases) (fileDependencies fa)).
            precedes b a (order @ [key])"
    proof
      fix b assume "b \<in> set (resolved (getDependencyIdentifier files aliases) (fileDependencies fa))"
      with fa(2) have "precedes b a order" by simp
      then show "precedes b a (order @ [key])" by (rule precedes_snoc_old)
    qed
    with fa(1) show ?thesis by simp
  qed
qed

lemma keys_pushNextKey: "set (keys (pushNextKey t)) \<subseteq> set (keys t)"
  by (auto simp: pushNextKey_def Let_def dest: in_set_butlastD)

lemma groupInv_pushNextKey:
  assumes "K \<subseteq> set (keys t) \<union> S \<union> set (deque t) \<union> set (analysisOrder t)" and "[] \<notin> set (keys t)"
  shows "K \<subseteq> set (keys (pushNextKey t)) \<union> S \<union> set (deque (pushNextKey t)) \<union> set (analysisOrder (pushNextKey t))
         \<and> (deque (pushNextKey t) = [] \<longrightarrow> keys (pushNextKey t) = [])
         \<and> [] \<notin> set (keys (pushNextKey t))"
proof (cases "keys t = []")
  case True
  then show ?thesis using assms by (simp add: pushNextKey_def)
next
  case False
  then have k: "keys t = butlast (keys t) @ [last (keys t)]" by simp
  have "last (keys t) \<in> set (keys t)" using False by (rule last_in_set)
  then have ne: "last (keys t) \<noteq> []" using assms(2) by auto
  have "set (butlast (keys t) @ [last (keys t)]) = set (butlast (keys t)) \<union> {last (keys t)}"
    by simp
  then have "set (keys t) = set (butlast (keys t)) \<union> {last (keys t)}"
    using k by simp
  moreover have "[] \<notin> set (butlast (keys t))" using assms(2) by (auto dest: in_set_butlastD)
  ultimately show ?thesis using assms False ne by (auto simp: pushNextKey_def Let_def)
qed

lemma groupInv_step:
  assumes g: "groupInv K t" and K: "\<And>k. k \<in> K \<Longrightarrow> getFile files k \<noteq> None"
      and ne: "deque t \<noteq> []"
  shows "groupInv K (orderStep files aliases looseDeps t)"
proof -
  obtain key dq where dq: "deque t = key # dq" using ne by (cases "deque t") auto
  have sub: "K \<subseteq> set (keys t) \<union> set (deque t) \<union> set (analysisOrder t)"
    and nk: "[] \<notin> set (keys t)"
    using g by (simp_all add: groupInv_def)
  from dq show ?thesis
  proof (cases rule: orderStep_cases [where files = files and aliases = aliases and looseDeps = looseDeps])
    case drop
    let ?t1 = "t\<lparr>deque := dq, seen := insert key (seen t)\<rparr>"
    have "key \<notin> K \<or> key \<in> set (analysisOrder t)" using drop(1) K [of key] by auto
    then have "K \<subseteq> set (keys ?t1) \<union> {} \<union> set (deque ?t1) \<union> set (analysisOrder ?t1)"
      using sub dq by auto
    moreover have "[] \<notin> set (keys ?t1)" using nk by simp
    ultimately show ?thesis
      using groupInv_pushNextKey [of K ?t1 "{}"] drop(2) by (simp add: groupInv_def)
  next
    case (finalize fl)
    let ?t1 = "t\<lparr>deque := dq, seen := insert key (seen t), analysisOrder := analysisOrder t @ [key]\<rparr>"
    have "K \<subseteq> set (keys ?t1) \<union> {} \<union> set (deque ?t1) \<union> set (analysisOrder ?t1)"
      using sub dq by auto
    moreover have "[] \<notin> set (keys ?t1)" using nk by simp
    ultimately show ?thesis
      using groupInv_pushNextKey [of K ?t1 "{}"] finalize(4) by (simp add: groupInv_def)
  next
    case (requeue deps)
    then show ?thesis using sub nk dq by (auto simp: groupInv_def)
  qed
qed

lemma orderInv_step:
  assumes inv: "orderInv files aliases (analysisOrder t)" and ne: "deque t \<noteq> []"
  shows "orderInv files aliases (analysisOrder (orderStep files aliases looseDeps t))
         \<and> set (analysisOrder t) \<subseteq> set (analysisOrder (orderStep files aliases looseDeps t))"
proof -
  obtain key dq where dq: "deque t = key # dq" using ne by (cases "deque t") auto
  from dq show ?thesis
  proof (cases rule: orderStep_cases [where files = files and aliases = aliases and looseDeps = looseDeps])
    case drop
    then show ?thesis using inv by simp
  next
    case (finalize fl)
    have "orderInv files aliases (analysisOrder t @ [key])"
      using inv finalize(1,2,3) by (rule orderInv_snoc)
    then show ?thesis using finalize(4) by auto
  next
    case (requeue deps)
    then show ?thesis using inv by simp
  qed
qed


lemma set_insertKey: "set (insertKey k xs) = insert k (set xs)"
  by (induction xs) auto

lemma set_sortKeys: "set (sortKeys ks) = set ks"
  by (induction ks) (auto simp: sortKeys_def set_insertKey)

lemma getFileIn_Cons_None:
  "getFileIn (d # ds) files nm = None
     \<longleftrightarrow> map_of (files d) nm = None \<and> getFileIn ds files nm = None"
  by (cases "map_of (files d) nm") auto

lemma getFileIn_None: "getFileIn ds files nm = None \<longleftrightarrow> (\<forall>d \<in> set ds. nm \<notin> fst ` set (files d))"
proof (induction ds)
  case Nil
  show ?case by simp
next
  case (Cons d ds)
  show ?case
    unfolding getFileIn_Cons_None Cons.IH by (simp add: map_of_eq_None_iff)
qed

lemma UNIV_subdirs: "set gameFileDirectories = UNIV"
proof -
  have "d \<in> set gameFileDirectories" for d
    by (cases d) (simp_all add: gameFileDirectories_def)
  then show ?thesis by auto
qed

lemma getFile_None: "getFile files nm = None \<longleftrightarrow> (\<forall>d. nm \<notin> fst ` set (files d))"
  by (simp add: getFile_def getFileIn_None UNIV_subdirs)

lemma orderGroup_correct:
  assumes run: "orderGroup srt files aliases looseDeps d s = Some s'"
      and inv: "orderInv files aliases (analysisOrder s)"
      and ne: "[] \<notin> fst ` set (files d)"
      and srt: "\<And>ks. set (srt ks) = set ks"
  shows "orderInv files aliases (analysisOrder s')
         \<and> set (analysisOrder s) \<subseteq> set (analysisOrder s')
         \<and> fst ` set (files d) \<subseteq> set (analysisOrder s')"
proof (cases "srt (map fst (files d)) = []")
  case True
  then have "set (srt (map fst (files d))) = {}" by simp
  then have "fst ` set (files d) = {}" by (simp add: srt)
  moreover have "s' = s" using run True by (simp add: orderGroup_def)
  ultimately show ?thesis using inv by simp
next
  case False
  let ?ks = "srt (map fst (files d))"
  let ?K = "fst ` set (files d)"
  let ?s0 = "s\<lparr>keys := butlast ?ks, deque := [last ?ks]\<rparr>"
  let ?I = "\<lambda>t. orderInv files aliases (analysisOrder t) \<and> groupInv ?K t
              \<and> set (analysisOrder s) \<subseteq> set (analysisOrder t)"
  have run0: "orderLoop files aliases looseDeps ?s0 = Some s'"
    using run False by (simp add: orderGroup_def Let_def)
  have K: "set ?ks = ?K" by (simp add: srt)
  have ks: "?ks = butlast ?ks @ [last ?ks]" using False by simp
  have "set (butlast ?ks @ [last ?ks]) = set (butlast ?ks) \<union> {last ?ks}" by simp
  then have split: "?K = set (butlast ?ks) \<union> {last ?ks}" using ks K by simp
  have "[] \<notin> set (butlast ?ks)" using ne split by auto
  then have g0: "groupInv ?K ?s0" using split by (auto simp: groupInv_def)
  have Kf: "getFile files k \<noteq> None" if "k \<in> ?K" for k
    using that by (auto simp: getFile_None)
  have "?I s' \<and> deque s' = []"
  proof (rule orderLoop_invariant [OF run0])
    show "?I ?s0" using inv g0 by simp
  next
    fix t assume i: "?I t" and d: "deque t \<noteq> []"
    have "orderInv files aliases (analysisOrder (orderStep files aliases looseDeps t))
         \<and> set (analysisOrder t) \<subseteq> set (analysisOrder (orderStep files aliases looseDeps t))"
      using i d by (intro orderInv_step) simp_all
    moreover have "groupInv ?K (orderStep files aliases looseDeps t)"
      using i Kf d by (intro groupInv_step) simp_all
    ultimately show "?I (orderStep files aliases looseDeps t)" using i by auto
  qed
  then have "orderInv files aliases (analysisOrder s')" "groupInv ?K s'" "deque s' = []"
    "set (analysisOrder s) \<subseteq> set (analysisOrder s')"
    by simp_all
  moreover from this have "?K \<subseteq> set (analysisOrder s')"
    by (auto simp: groupInv_def)
  ultimately show ?thesis by simp
qed

lemma orderGroups_correct:
  assumes "orderGroups srt files aliases looseDeps ds s = Some s'"
      and "orderInv files aliases (analysisOrder s)"
      and "\<And>d. [] \<notin> fst ` set (files d)"
      and "\<And>ks. set (srt ks) = set ks"
  shows "orderInv files aliases (analysisOrder s')
         \<and> set (analysisOrder s) \<subseteq> set (analysisOrder s')
         \<and> (\<forall>d \<in> set ds. fst ` set (files d) \<subseteq> set (analysisOrder s'))"
  using assms(1,2)
proof (induction ds arbitrary: s)
  case Nil
  then show ?case by simp
next
  case (Cons d ds)
  from Cons.prems(1) obtain s1 where s1: "orderGroup srt files aliases looseDeps d s = Some s1"
    and rest: "orderGroups srt files aliases looseDeps ds s1 = Some s'"
    by (auto split: option.splits)
  have g: "orderInv files aliases (analysisOrder s1)"
    "set (analysisOrder s) \<subseteq> set (analysisOrder s1)"
    "fst ` set (files d) \<subseteq> set (analysisOrder s1)"
    using orderGroup_correct [OF s1 Cons.prems(2) assms(3,4)] by simp_all
  have r: "orderInv files aliases (analysisOrder s')"
    "set (analysisOrder s1) \<subseteq> set (analysisOrder s')"
    "\<forall>d \<in> set ds. fst ` set (files d) \<subseteq> set (analysisOrder s')"
    using Cons.IH [OF rest g(1)] by simp_all
  show ?case using g r by auto
qed

lemma determineOrder_correct:
  assumes run: "determineOrder srt files aliases looseDeps = Some order"
      and ne: "\<And>d. [] \<notin> fst ` set (files d)"
      and srt: "\<And>ks. set (srt ks) = set ks"
  shows "orderInv files aliases order \<and> set order = {n. getFile files n \<noteq> None}"
proof -
  let ?s0 = "\<lparr>keys = [], deque = [], seen = {}, analysisOrder = []\<rparr>"
  obtain s' where s': "orderGroups srt files aliases looseDeps gameFileDirectories ?s0 = Some s'"
    and o: "order = analysisOrder s'"
    using run by (auto simp: determineOrder_def)
  have "orderInv files aliases (analysisOrder ?s0)" by (simp add: orderInv_def)
  from orderGroups_correct [OF s' this ne srt]
  have inv: "orderInv files aliases order"
    and all: "\<forall>d. fst ` set (files d) \<subseteq> set order"
    using o by (simp_all add: UNIV_subdirs)
  have "set order \<subseteq> {n. getFile files n \<noteq> None}"
    using inv by (auto simp: orderInv_def)
  moreover have "{n. getFile files n \<noteq> None} \<subseteq> set order"
    using all by (auto simp: getFile_None)
  ultimately show ?thesis using inv by auto
qed

lemma determineOrder_precedes:
  assumes "determineOrder srt files aliases looseDeps = Some order"
      and "\<And>d. [] \<notin> fst ` set (files d)"
      and "\<And>ks. set (srt ks) = set ks"
      and "(b, a) \<in> hardEdges files aliases"
  shows "precedes b a order"
proof -
  have inv: "orderInv files aliases order" and all: "set order = {n. getFile files n \<noteq> None}"
    using determineOrder_correct [OF assms(1,2,3)] by simp_all
  obtain fl where f: "getFile files a = Some fl"
    "b \<in> set (resolved (getDependencyIdentifier files aliases) (fileDependencies fl))"
    using assms(4) by (auto simp: hardEdges_def)
  then have "a \<in> set order" using all by simp
  then show ?thesis using inv f unfolding orderInv_def by fastforce
qed



section \<open>What the walk of a file keeps\<close>

definition unitOf :: "LuaFile \<Rightarrow> string \<times> LuaGameSubdirectory" where
  "unitOf f = (name f, subdirectory f)"

text \<open>
  \<open>grows f f'\<close>: from \<open>f\<close> to \<open>f'\<close> the identity and the group are kept, no block
  is removed from the store, no global leaves \<open>globalsSet\<close>, and no name that a block
  binds becomes unbound.
\<close>

definition grows :: "LuaFile \<Rightarrow> LuaFile \<Rightarrow> bool" where
  "grows f f' =
     (unitOf f' = unitOf f
      \<and> length (blocks f) \<le> length (blocks f')
      \<and> set (globalsSet f) \<subseteq> set (globalsSet f')
      \<and> (\<forall>i < length (blocks f). \<forall>x. locals (blocks f ! i) x \<noteq> None
             \<longrightarrow> locals (blocks f' ! i) x \<noteq> None))"

lemma grows_refl [simp]: "grows f f"
  by (simp add: grows_def)

lemma grows_trans:
  assumes "grows f f'" and "grows f' f''"
  shows "grows f f''"
  unfolding grows_def
proof (intro conjI allI impI)
  show "unitOf f'' = unitOf f" using assms by (simp add: grows_def)
  show "length (blocks f) \<le> length (blocks f'')" using assms by (simp add: grows_def)
  show "set (globalsSet f) \<subseteq> set (globalsSet f'')" using assms by (auto simp: grows_def)
next
  fix i x assume i: "i < length (blocks f)" and l: "locals (blocks f ! i) x \<noteq> None"
  have "locals (blocks f' ! i) x \<noteq> None" using assms(1) i l by (simp add: grows_def)
  moreover have "i < length (blocks f')" using assms(1) i by (simp add: grows_def)
  ultimately show "locals (blocks f'' ! i) x \<noteq> None" using assms(2) by (simp add: grows_def)
qed

lemma growsI:
  "unitOf f' = unitOf f \<Longrightarrow> length (blocks f) \<le> length (blocks f')
   \<Longrightarrow> set (globalsSet f) \<subseteq> set (globalsSet f')
   \<Longrightarrow> (\<And>i x. i < length (blocks f) \<Longrightarrow> locals (blocks f ! i) x \<noteq> None
         \<Longrightarrow> locals (blocks f' ! i) x \<noteq> None)
   \<Longrightarrow> grows f f'"
  by (simp add: grows_def)

lemma grows_updBlock:
  assumes "\<And>b x. locals b x \<noteq> None \<Longrightarrow> locals (g b) x \<noteq> None"
  shows "grows f (updBlock i g f)"
proof (rule growsI)
  fix j x assume j: "j < length (blocks f)" and l: "locals (blocks f ! j) x \<noteq> None"
  show "locals (blocks (updBlock i g f) ! j) x \<noteq> None"
    using j l assms by (cases "j = i") (simp_all add: updBlock_def)
qed (simp_all add: updBlock_def unitOf_def)

lemma grows_addFileDependency [simp]: "grows f (addFileDependency p nm f)"
  by (simp add: grows_def unitOf_def addFileDependency_def)

lemma grows_addGlobalDependency [simp]: "grows f (addGlobalDependency p nm f)"
  by (simp add: grows_def unitOf_def addGlobalDependency_def)

lemma grows_addGlobalSet [simp]: "grows f (addGlobalSet p nm f)"
  by (auto simp: grows_def unitOf_def addGlobalSet_def setAdd_def)

lemma grows_addCall [simp]: "grows f (addCall p this base args f)"
  by (simp add: addCall_def grows_updBlock)

lemma grows_addReturn [simp]: "grows f (addReturn p this stmt f)"
  by (simp add: addReturn_def grows_updBlock)

lemma grows_addChild [simp]: "grows f (addChild this child f)"
  unfolding addChild_def
  by (rule grows_trans [OF grows_updBlock grows_updBlock]) simp_all

lemma locals_fold_bindLocal:
  "locals b x \<noteq> None \<Longrightarrow> locals (fold (bindLocal a) ns b) x \<noteq> None"
  by (induction ns arbitrary: b) (simp_all add: bindLocal_def)

lemma grows_addBlockLocals [simp]: "grows f (addBlockLocals this es rs ty addSelf f)"
  unfolding addBlockLocals_def Let_def
  by (rule grows_trans [OF grows_updBlock grows_updBlock]) (simp_all add: locals_fold_bindLocal)

lemma grows_pushHistory: "pushHistory a r f = Some f' \<Longrightarrow> grows f f'"
  by (cases r) (auto simp: pushHistory_def intro!: grows_updBlock split: option.splits)

definition growsTo :: "LuaFile \<Rightarrow> LuaFile option \<Rightarrow> bool" where
  "growsTo f r = (case r of None \<Rightarrow> True | Some f' \<Rightarrow> grows f f')"

lemma growsTo_None [simp]: "growsTo f None"
  by (simp add: growsTo_def)

lemma growsTo_Some [simp]: "growsTo f (Some f') = grows f f'"
  by (simp add: growsTo_def)

lemma growsTo_bind:
  assumes "growsTo f m" and "\<And>f'. m = Some f' \<Longrightarrow> growsTo f' (g f')"
  shows "growsTo f (Option.bind m g)"
proof (cases m)
  case None
  then show ?thesis by simp
next
  case (Some f')
  show ?thesis
  proof (cases "g f'")
    case None
    then show ?thesis using Some by simp
  next
    case (Some f'')
    have "grows f f'" using assms(1) \<open>m = Some f'\<close> by simp
    moreover have "grows f' f''" using assms(2) [OF \<open>m = Some f'\<close>] Some by simp
    ultimately have "grows f f''" by (rule grows_trans)
    then show ?thesis using Some \<open>m = Some f'\<close> by simp
  qed
qed

lemma growsTo_map:
  assumes "growsTo f m" and "\<And>f'. grows f' (g f')"
  shows "growsTo f (map_option g m)"
  using assms by (cases m) (auto intro: grows_trans)

lemma growsTo_forEach:
  assumes "\<And>x f. growsTo f (g x f)"
  shows "growsTo f (forEach g xs f)"
proof (induction xs arbitrary: f)
  case Nil
  show ?case by simp
next
  case (Cons x xs)
  show ?case using growsTo_bind [OF assms Cons.IH] by simp
qed

lemma growsTo_addLocalAssignment: "growsTo f (addLocalAssignment p this ls rs ex f)"
proof -
  have a: "grows f (updBlock this (\<lambda>b. b\<lparr>elements := elements b @ [e]\<rparr>)
                     (updBlock this (fold (bindLocal a) ls) f))" for e a
    by (rule grows_trans [OF grows_updBlock grows_updBlock]) (simp_all add: locals_fold_bindLocal)
  have b: "growsTo f (map_option (updBlock this (\<lambda>b. b\<lparr>elements := elements b @ [e]\<rparr>))
                        (pushHistory a r f))" for e a r
    by (cases "pushHistory a r f")
       (auto intro!: grows_trans [OF grows_pushHistory grows_updBlock])
  show ?thesis
    unfolding addLocalAssignment_def Let_def
    using a b by (auto intro!: grows_updBlock split: option.splits)
qed

lemma growsTo_assignTarget: "growsTo f (assignTarget p this a left f)"
  by (cases "assignTarget p this a left f")
     (auto simp: assignTarget_def split: expression.splits option.splits if_splits
           intro: grows_pushHistory)

lemma growsTo_addAssignment: "growsTo f (addAssignment p this ls rs f)"
  unfolding addAssignment_def Let_def
  by (rule growsTo_map [OF growsTo_forEach]) (auto intro: growsTo_assignTarget grows_updBlock)

lemma growsTo_constructLocals: "growsTo f (constructLocals p this nd par f)"
proof -
  have "growsTo f (addLocalAssignment p pr ls rs ex (addBlockLocals this es rs' ty addSelf f))"
    for pr ls rs ex es rs' ty addSelf
    using growsTo_bind [of f "Some (addBlockLocals this es rs' ty addSelf f)"
                            "addLocalAssignment p pr ls rs ex"]
    by (simp add: growsTo_addLocalAssignment)
  then show ?thesis
    by (auto simp: constructLocals_def Let_def
        split: LuaBlockNode.splits funcdecl.splits option.splits expression.splits prod.splits)
qed

lemma grows_append_block: "grows f (f\<lparr>blocks := blocks f @ [b]\<rparr>)"
  by (rule growsI) (simp_all add: unitOf_def nth_append)

lemma grows_newLuaBlock: "newLuaBlock p nd par f = Some (this, f') \<Longrightarrow> grows f f'"
proof -
  assume a: "newLuaBlock p nd par f = Some (this, f')"
  let ?f0 = "f\<lparr>blocks := blocks f @ [emptyBlock nd]\<rparr>"
  obtain f1 where c: "constructLocals p (length (blocks f)) nd par ?f0 = Some f1"
    and f': "f' = (case par of Some pr \<Rightarrow> addChild pr (length (blocks f)) f1 | None \<Rightarrow> f1)"
    using a by (auto simp: newLuaBlock_def Let_def)
  have "grows f ?f0" by (rule grows_append_block)
  moreover have "grows ?f0 f1" using growsTo_constructLocals [of ?f0 p "length (blocks f)" nd par] c by simp
  moreover have "grows f1 f'" using f' by (cases par) simp_all
  ultimately show ?thesis by (blast intro: grows_trans)
qed

text \<open>The same for a step of the walk; the pass never changes.\<close>

definition extends :: "Walk \<Rightarrow> Walk option \<Rightarrow> bool" where
  "extends w r =
     (case r of None \<Rightarrow> True
      | Some w' \<Rightarrow> pass w' = pass w \<and> grows (curFileBlock w) (curFileBlock w'))"

lemma extends_None [simp]: "extends w None"
  by (simp add: extends_def)

lemma extends_Some: "extends w (Some w') = (pass w' = pass w \<and> grows (curFileBlock w) (curFileBlock w'))"
  by (simp add: extends_def)

lemma extends_refl [simp]: "extends w (Some w)"
  by (simp add: extends_def)

lemma extends_bind:
  assumes "extends w m" and "\<And>w'. m = Some w' \<Longrightarrow> extends w' (g w')"
  shows "extends w (Option.bind m g)"
proof (cases m)
  case None
  then show ?thesis by simp
next
  case (Some w')
  show ?thesis
  proof (cases "g w'")
    case None
    then show ?thesis using Some by simp
  next
    case (Some w'')
    have "pass w' = pass w \<and> grows (curFileBlock w) (curFileBlock w')"
      using assms(1) \<open>m = Some w'\<close> by (simp add: extends_Some)
    moreover have "pass w'' = pass w' \<and> grows (curFileBlock w') (curFileBlock w'')"
      using assms(2) [OF \<open>m = Some w'\<close>] Some by (simp add: extends_Some)
    ultimately have "pass w'' = pass w \<and> grows (curFileBlock w) (curFileBlock w'')"
      by (auto intro: grows_trans)
    then show ?thesis using Some \<open>m = Some w'\<close> by (simp add: extends_Some)
  qed
qed

lemma extends_file:
  assumes "growsTo (curFileBlock w) m"
  shows "extends w (map_option (\<lambda>file. w\<lparr>curFileBlock := file\<rparr>) m)"
  using assms by (cases m) (simp_all add: extends_Some)

lemma extends_forEach:
  assumes "\<And>x w. extends w (g x w)"
  shows "extends w (forEach g xs w)"
proof (induction xs arbitrary: w)
  case Nil
  show ?case by simp
next
  case (Cons x xs)
  show ?case using extends_bind [OF assms Cons.IH] by simp
qed

lemma extends_tryReadRequire: "tryReadRequire e w = (t, w') \<Longrightarrow> extends w (Some w')"
  by (auto simp: tryReadRequire_def extends_Some split: option.splits)

lemma extends_pushBlock [simp]: "extends w (pushBlock nd b w)"
proof (cases "pushBlock nd b w")
  case None
  then show ?thesis by simp
next
  case (Some w')
  then obtain this f' where n: "newLuaBlock (pass w) nd (Some b) (curFileBlock w) = Some (this, f')"
    and w': "w' = w\<lparr>curFileBlock := f', stack := stack w @ [(this, nd)]\<rparr>"
    by (auto simp: pushBlock_def)
  show ?thesis using grows_newLuaBlock [OF n] w' Some by (simp add: extends_Some)
qed

lemma extends_addGlobalReference [simp]: "extends w (Some (addGlobalReference nm w))"
  by (simp add: addGlobalReference_def extends_Some)

lemma extends_readCallExpression [simp]: "extends w (Some (readCallExpression base args b w))"
  by (simp add: readCallExpression_def extends_Some)

lemma extends_readExpression:
  "extends w (readExpression e b w)"
  "extends w (readExpressions es b w)"
  "extends w (readFields fs b w)"
proof (induction e b w and es b w and fs b w rule: readExpression_readExpressions_readFields.induct)
  case (4 base args block w)
  obtain t w' where tr: "tryReadRequire (CallExpression base args) w = (t, w')"
    by fastforce
  have e0: "extends w (Some w')" using tr by (rule extends_tryReadRequire)
  show ?case
  proof (cases t)
    case True
    then show ?thesis using tr e0 by simp
  next
    case False
    have a: "extends w' (readExpression base block w')"
      using "4.IH"(1) tr False by simp
    have b: "extends w1 (Option.bind (readExpressions args block w1)
                          (\<lambda>w2. Some (readCallExpression base args block w2)))"
      if "readExpression base block w' = Some w1" for w1
    proof (rule extends_bind)
      show "extends w1 (readExpressions args block w1)"
        using "4.IH"(2) tr False that by simp
    qed simp
    have "extends w (Option.bind (Some w') (\<lambda>w'. Option.bind (readExpression base block w') (\<lambda>w1.
               Option.bind (readExpressions args block w1)
                 (\<lambda>w2. Some (readCallExpression base args block w2)))))"
      using e0 by (rule extends_bind) (auto intro: extends_bind [OF a b])
    then show ?thesis using tr False by simp
  qed
next
  case (6 base arg block w)
  obtain t w' where tr: "tryReadRequire (StringCallExpression base arg) w = (t, w')"
    by fastforce
  have e0: "extends w (Some w')" using tr by (rule extends_tryReadRequire)
  show ?case
  proof (cases t)
    case True
    then show ?thesis using tr e0 by simp
  next
    case False
    have a: "extends w' (readExpression base block w')"
      using "6.IH"(1) tr False by simp
    have b: "extends w1 (readExpression arg block w1)"
      if "readExpression base block w' = Some w1" for w1
      using "6.IH"(2) tr False that by simp
    have "extends w (Option.bind (Some w') (\<lambda>w'. Option.bind (readExpression base block w')
               (readExpression arg block)))"
      using e0 by (rule extends_bind) (auto intro: extends_bind [OF a b])
    then show ?thesis using tr False by simp
  qed
next
  case (20 k v fs block w)
  have b: "extends w1 (Option.bind (readExpression k block w1) (readFields fs block))"
    if "readExpression v block w = Some w1" for w1
    using "20.IH"(2) [OF that] "20.IH"(3) [OF that] by (rule extends_bind)
  show ?case using extends_bind [OF "20.IH"(1) b] by simp
qed (auto intro: extends_bind)

lemma extends_readTargetBases: "extends w (readTargetBases vs b w)"
  by (induction vs b w rule: readTargetBases.induct)
     (auto intro: extends_bind extends_readExpression)

lemma extends_prepareAssignment:
  "prepareAssignment vars init b w = Some (ls, rs, w') \<Longrightarrow> extends w (Some w')"
proof -
  assume a: "prepareAssignment vars init b w = Some (ls, rs, w')"
  have "extends w (Option.bind (readExpressions (take (length vars) init) b w) (readTargetBases vars b))"
    by (rule extends_bind) (rule extends_readExpression extends_readTargetBases)+
  moreover have "Option.bind (readExpressions (take (length vars) init) b w) (readTargetBases vars b) = Some w'"
    using a by (auto simp: prepareAssignment_def)
  ultimately show ?thesis by simp
qed

lemma extends_readAssignStatement: "extends w (readAssignStatement vars init b w)"
  unfolding readAssignStatement_def
proof (cases "prepareAssignment vars init b w")
  case None
  then show "extends w (Option.bind (prepareAssignment vars init b w) (\<lambda>(ls, rs, w').
       map_option (\<lambda>file. w'\<lparr>curFileBlock := file\<rparr>)
         (addAssignment (pass w') b ls rs (curFileBlock w'))))" by simp
next
  case (Some r)
  obtain ls rs w' where r: "r = (ls, rs, w')" by (metis prod_cases3)
  have "extends w (Option.bind (Some w') (\<lambda>w'. map_option (\<lambda>file. w'\<lparr>curFileBlock := file\<rparr>)
         (addAssignment (pass w') b ls rs (curFileBlock w'))))"
    using extends_prepareAssignment [OF Some [unfolded r]]
    by (rule extends_bind) (simp add: extends_file growsTo_addAssignment)
  then show "extends w (Option.bind (prepareAssignment vars init b w) (\<lambda>(ls, rs, w').
       map_option (\<lambda>file. w'\<lparr>curFileBlock := file\<rparr>)
         (addAssignment (pass w') b ls rs (curFileBlock w'))))"
    using Some r by simp
qed

lemma extends_readLocalStatement: "extends w (readLocalStatement vars init b w)"
  unfolding readLocalStatement_def
proof (cases "prepareAssignment (map Identifier vars) init b w")
  case None
  then show "extends w (Option.bind (prepareAssignment (map Identifier vars) init b w) (\<lambda>(ls, rs, w').
       map_option (\<lambda>file. w'\<lparr>curFileBlock := file\<rparr>)
         (addLocalAssignment (pass w') b vars rs None (curFileBlock w'))))" by simp
next
  case (Some r)
  obtain ls rs w' where r: "r = (ls, rs, w')" by (metis prod_cases3)
  have "extends w (Option.bind (Some w') (\<lambda>w'. map_option (\<lambda>file. w'\<lparr>curFileBlock := file\<rparr>)
         (addLocalAssignment (pass w') b vars rs None (curFileBlock w'))))"
    using extends_prepareAssignment [OF Some [unfolded r]]
    by (rule extends_bind) (simp add: extends_file growsTo_addLocalAssignment)
  then show "extends w (Option.bind (prepareAssignment (map Identifier vars) init b w) (\<lambda>(ls, rs, w').
       map_option (\<lambda>file. w'\<lparr>curFileBlock := file\<rparr>)
         (addLocalAssignment (pass w') b vars rs None (curFileBlock w'))))"
    using Some r by simp
qed

lemma extends_processStatement: "extends w (processStatement s b w)"
proof (cases s)
  case (ReturnStatement args)
  have "extends w (Option.bind (readExpressions args b w)
          (\<lambda>w'. Some (w'\<lparr>curFileBlock := addReturn (pass w') b (ReturnStatement args) (curFileBlock w')\<rparr>)))"
    by (rule extends_bind [OF extends_readExpression(2)]) (simp add: extends_Some)
  then show ?thesis using ReturnStatement
    by (cases "readExpressions args b w") simp_all
next
  case (ForGenericStatement vars iters body)
  then show ?thesis by (auto intro: extends_bind extends_readExpression)
qed (simp_all add: extends_readLocalStatement extends_readAssignStatement extends_readExpression
       extends_forEach)

lemma extends_processBlock: "extends w (processBlock e w)"
  unfolding processBlock_def by (rule extends_forEach) (rule extends_processStatement)

lemma extends_processLoop: "extends w (processLoop w)"
proof (induction w rule: processLoop.induct)
  case (1 w)
  show ?case
  proof (cases "stack w = []")
    case True
    then show ?thesis by (simp add: processLoop.simps)
  next
    case False
    let ?w = "w\<lparr>stack := butlast (stack w)\<rparr>"
    have "extends ?w (Option.bind (processBlock (last (stack w)) ?w) processLoop)"
      using extends_processBlock "1.IH" [OF False] by (rule extends_bind)
    then have "extends ?w (processLoop w)"
      using False by (subst processLoop.simps) simp
    then show ?thesis by (cases "processLoop w") (simp_all add: extends_Some)
  qed
qed

lemma grows_processFile: "processFile p f = Some f' \<Longrightarrow> grows f f'"
proof (cases "blocks f")
  case Nil
  assume "processFile p f = Some f'"
  then show ?thesis using Nil by (simp add: processFile_def)
next
  case (Cons b bs)
  assume a: "processFile p f = Some f'"
  let ?w = "\<lparr>pass = p, curFileBlock = f, stack = [(0, node b)]\<rparr>"
  obtain w' where "processLoop ?w = Some w'" "f' = curFileBlock w'"
    using a Cons by (auto simp: processFile_def)
  then show ?thesis using extends_processLoop [of ?w] by (simp add: extends_Some)
qed

lemma name_processFile: "processFile p f = Some f' \<Longrightarrow> name f' = name f"
  by (drule grows_processFile) (simp add: grows_def unitOf_def)

lemma unitOf_cleanup [simp]: "unitOf (cleanup f) = unitOf f"
  by (simp add: cleanup_def unitOf_def updBlock_def)

lemma name_cleanup [simp]: "name (cleanup f) = name f"
  using unitOf_cleanup [of f] by (simp add: unitOf_def)


section \<open>Invariants of reading the directories\<close>

lemma length_takeWhile_stop:
  "\<not> P y \<Longrightarrow> length (takeWhile P (xs @ y # ys)) \<le> length xs"
  by (induction xs) auto

lemma rev_split_while: "rev (dropWhile P (rev p)) @ rev (takeWhile P (rev p)) = p"
proof -
  have "rev (dropWhile P (rev p)) @ rev (takeWhile P (rev p))
          = rev (takeWhile P (rev p) @ dropWhile P (rev p))"
    by (simp only: rev_append)
  also have "\<dots> = rev (rev p)" by (simp only: takeWhile_dropWhile_id)
  also have "\<dots> = p" by simp
  finally show ?thesis .
qed

lemma basename_suffix: "\<exists>q. p = q @ basename sep p"
  unfolding basename_def using rev_split_while [of "\<lambda>c. c \<notin> set sep" p, symmetric] by (rule exI)

lemma basename_pathJoin_length:
  assumes "sep \<noteq> []"
  shows "length (basename sep (pathJoin sep dirPath n)) \<le> length n"
proof -
  let ?P = "\<lambda>c. c \<notin> set sep"
  have "rev (butlast sep @ [last sep]) = last sep # rev (butlast sep)" by simp
  then have e: "rev sep = last sep # rev (butlast sep)" using assms by simp
  have "\<not> ?P (last sep)" using assms by simp
  then have "length (takeWhile ?P (rev n @ last sep # (rev (butlast sep) @ rev dirPath))) \<le> length (rev n)"
    by (rule length_takeWhile_stop)
  moreover have "rev (dirPath @ sep @ n) = rev n @ last sep # (rev (butlast sep) @ rev dirPath)"
    by (simp add: e)
  ultimately show ?thesis
    by (simp only: basename_def pathJoin_def length_rev)
qed

lemma extname_lua:
  assumes "extname sep p = ''.lua''"
  shows "\<exists>pre. pre \<noteq> [] \<and> basename sep p = pre @ ''.lua''"
proof -
  define b where "b = basename sep p"
  define ext where "ext = rev (takeWhile (\<lambda>c. c \<noteq> CHR ''.'') (rev b))"
  define dw where "dw = dropWhile (\<lambda>c. c \<noteq> CHR ''.'') (rev b)"
  have dot: "CHR ''.'' \<in> set b" and len: "length b \<noteq> Suc (length ext)" and ext: "ext = ''lua''"
    using assms unfolding b_def ext_def by (auto simp: extname_def Let_def split: if_splits)
  have ne: "dw \<noteq> []"
    using dot unfolding dw_def by (simp add: dropWhile_eq_Nil_conv)
  then have "\<not> (hd dw \<noteq> CHR ''.'')" unfolding dw_def by (rule hd_dropWhile)
  then have h: "hd dw = CHR ''.''" by simp
  from ne obtain a r where ar: "dw = a # r" by (cases dw) auto
  then have a: "a = CHR ''.''" using h by simp
  have "rev dw @ ext = b" unfolding dw_def ext_def by (rule rev_split_while)
  then have bb: "b = rev r @ CHR ''.'' # ext" using ar a by simp
  then have "length b = length r + Suc (length ext)" by simp
  then have "r \<noteq> []" using len by auto
  then have "rev r \<noteq> []" by simp
  moreover have "basename sep p = rev r @ ''.lua''" using bb ext b_def by simp
  ultimately show ?thesis by (intro exI conjI)
qed

lemma getFileIdentifier_nonempty:
  assumes "pre \<noteq> []"
  shows "getFileIdentifier (q @ pre @ ''.lua'') \<noteq> []"
proof -
  have "endsWith ''.lua'' (q @ pre @ ''.lua'')"
    by (simp add: endsWith_def)
  moreover have "take (length (q @ pre @ ''.lua'') - 4) (q @ pre @ ''.lua'') = q @ pre"
    by simp
  ultimately show ?thesis using assms by (simp add: getFileIdentifier_def)
qed

lemma lua_identifier_nonempty:
  assumes sep: "sep \<noteq> []" and ps: "ps \<le> length dirPath + length sep"
      and ext: "extname sep (pathJoin sep dirPath n) = ''.lua''"
  shows "getFileIdentifier (drop ps (pathJoin sep dirPath n)) \<noteq> []"
proof -
  let ?p = "pathJoin sep dirPath n"
  obtain pre where pre: "pre \<noteq> []" "basename sep ?p = pre @ ''.lua''"
    using extname_lua [OF ext] by (elim exE conjE)
  obtain q where q: "?p = q @ basename sep ?p"
    using basename_suffix [of ?p sep] by (elim exE)
  have "length (basename sep ?p) \<le> length n"
    using sep by (rule basename_pathJoin_length)
  moreover have "length ?p = length dirPath + length sep + length n"
    by (simp add: pathJoin_def)
  moreover have "length (q @ basename sep ?p) = length q + length (basename sep ?p)"
    by simp
  then have "length ?p = length q + length (basename sep ?p)"
    using q by simp
  ultimately have le: "ps \<le> length q" using ps by simp
  have "drop ps (q @ pre @ ''.lua'') = drop ps q @ pre @ ''.lua''"
    using le by simp
  then have "drop ps ?p = drop ps q @ pre @ ''.lua''"
    using q pre(2) by simp
  then show ?thesis using getFileIdentifier_nonempty [OF pre(1)] by simp
qed


definition readInv :: "string \<Rightarrow> nat \<Rightarrow> string set \<Rightarrow> ReadState \<Rightarrow> bool" where
  "readInv sep ps K st =
     (case st of (stk, fm, an) \<Rightarrow>
        (\<forall>fr \<in> set stk. ps \<le> length (fst fr) + length sep)
        \<and> [] \<notin> fst ` set fm
        \<and> (\<forall>e \<in> set fm. name (snd e) = fst e)
        \<and> (\<forall>p. set (fileAliases an p) \<subseteq> K \<union> fst ` set fm))"

lemma readInvI:
  "(\<And>fr. fr \<in> set stk \<Longrightarrow> ps \<le> length (fst fr) + length sep)
   \<Longrightarrow> [] \<notin> fst ` set fm
   \<Longrightarrow> (\<And>e. e \<in> set fm \<Longrightarrow> name (snd e) = fst e)
   \<Longrightarrow> (\<And>p. set (fileAliases an p) \<subseteq> K \<union> fst ` set fm)
   \<Longrightarrow> readInv sep ps K (stk, fm, an)"
  by (simp add: readInv_def)

lemma readInv_stack: "readInv sep ps K (stk, fm, an) \<Longrightarrow> fr \<in> set stk \<Longrightarrow> ps \<le> length (fst fr) + length sep"
  by (simp add: readInv_def)

lemma readInv_nonempty: "readInv sep ps K (stk, fm, an) \<Longrightarrow> [] \<notin> fst ` set fm"
  by (simp add: readInv_def)

lemma readInv_name: "readInv sep ps K (stk, fm, an) \<Longrightarrow> e \<in> set fm \<Longrightarrow> name (snd e) = fst e"
  by (simp add: readInv_def)

lemma readInv_aliases: "readInv sep ps K (stk, fm, an) \<Longrightarrow> set (fileAliases an p) \<subseteq> K \<union> fst ` set fm"
  by (simp add: readInv_def)

lemma fileAliases_readFile: "fileAliases (snd (readFile path src sd nm an)) = fileAliases an"
  by (cases src) (simp_all add: readFile_def Let_def split: option.splits)

lemma name_readFile: "readFile path src sd nm an = (Some f, an') \<Longrightarrow> name f = nm"
  by (cases src)
     (auto simp: readFile_def Let_def newLuaFile_def split: option.splits dest!: name_processFile)

lemma keys_recordSet: "fst ` set (recordSet k v fm) = insert k (fst ` set fm)"
  by (induction fm) auto

lemma in_recordSet: "e \<in> set (recordSet k v fm) \<Longrightarrow> e = (k, v) \<or> e \<in> set fm"
  by (induction fm) (auto split: if_splits)

lemma set_setAdd: "set (setAdd x xs) = insert x (set xs)"
  by (auto simp: setAdd_def)

lemma fold_alias_subset:
  "set (fold (\<lambda>pn al. al(pn := setAdd nm (al pn))) pns al p) \<subseteq> insert nm (set (al p))"
proof (induction pns arbitrary: al)
  case Nil
  show ?case by auto
next
  case (Cons pn pns)
  have "set (fold (\<lambda>pn al. al(pn := setAdd nm (al pn))) pns (al(pn := setAdd nm (al pn))) p)
          \<subseteq> insert nm (set ((al(pn := setAdd nm (al pn))) p))"
    by (rule Cons.IH)
  also have "\<dots> \<subseteq> insert nm (set (al p))"
    by (auto simp: set_setAdd)
  finally show ?case by (simp only: fold_simps o_apply)
qed

lemma fileAliases_addAliases: "set (fileAliases (addAliases nm an) p) \<subseteq> insert nm (set (fileAliases an p))"
  by (simp add: addAliases_def fold_alias_subset)

lemma scanEntry_inv:
  assumes sep: "sep \<noteq> []" and inv: "readInv sep ps K (stk, fm, an)"
      and dp: "ps \<le> length dirPath + length sep"
  shows "readInv sep ps K (scanEntry sep ps sd dirPath e (stk, fm, an))"
proof (cases e)
  case (DirectoryEntry n es err)
  have "readInv sep ps K (stk @ [(pathJoin sep dirPath n, es, err)], fm, an)"
  proof (rule readInvI)
    fix fr assume "fr \<in> set (stk @ [(pathJoin sep dirPath n, es, err)])"
    then consider "fr \<in> set stk" | "fr = (pathJoin sep dirPath n, es, err)" by auto
    then show "ps \<le> length (fst fr) + length sep"
    proof cases
      case 1
      with inv show ?thesis by (rule readInv_stack)
    next
      case 2
      then show ?thesis using dp by (simp add: pathJoin_def)
    qed
  qed (use inv in \<open>simp_all add: readInv_def\<close>)
  then show ?thesis using DirectoryEntry by simp
next
  case (OtherEntry n)
  then show ?thesis using inv by simp
next
  case (FileEntry n src)
  let ?cp = "pathJoin sep dirPath n"
  let ?nm = "getFileIdentifier (drop ps ?cp)"
  show ?thesis
  proof (cases "extname sep ?cp = ''.lua''")
    case False
    then show ?thesis using FileEntry inv by (simp add: Let_def)
  next
    case True
    obtain r an' where rf: "readFile ?cp src sd ?nm an = (r, an')" by fastforce
    have al: "fileAliases an' = fileAliases an"
      using fileAliases_readFile [of ?cp src sd ?nm an] rf by simp
    show ?thesis
    proof (cases r)
      case None
      have "readInv sep ps K (stk, fm, an')"
        using inv al by (simp add: readInv_def)
      then show ?thesis using FileEntry True rf None by (simp add: Let_def)
    next
      case (Some block)
      have nm: "name block = ?nm" using rf Some by (intro name_readFile) simp
      have ne: "?nm \<noteq> []" using sep dp True by (rule lua_identifier_nonempty)
      have "readInv sep ps K (stk, recordSet ?nm block fm, addAliases ?nm an')"
      proof (rule readInvI)
        fix fr assume "fr \<in> set stk"
        with inv show "ps \<le> length (fst fr) + length sep" by (rule readInv_stack)
      next
        show "[] \<notin> fst ` set (recordSet ?nm block fm)"
          using readInv_nonempty [OF inv] ne by (simp add: keys_recordSet)
      next
        fix e' assume "e' \<in> set (recordSet ?nm block fm)"
        then have "e' = (?nm, block) \<or> e' \<in> set fm" by (rule in_recordSet)
        then show "name (snd e') = fst e'"
          using nm readInv_name [OF inv] by auto
      next
        fix p
        have "set (fileAliases (addAliases ?nm an') p) \<subseteq> insert ?nm (set (fileAliases an' p))"
          by (rule fileAliases_addAliases)
        also have "\<dots> \<subseteq> insert ?nm (K \<union> fst ` set fm)"
          using readInv_aliases [OF inv, of p] al by auto
        also have "\<dots> = K \<union> fst ` set (recordSet ?nm block fm)"
          by (simp add: keys_recordSet)
        finally show "set (fileAliases (addAliases ?nm an') p) \<subseteq> K \<union> fst ` set (recordSet ?nm block fm)" .
      qed
      then show ?thesis using FileEntry True rf Some by (simp add: Let_def)
    qed
  qed
qed

lemma scanEntries_inv:
  assumes "sep \<noteq> []" and "readInv sep ps K st" and "ps \<le> length dirPath + length sep"
  shows "readInv sep ps K (fold (scanEntry sep ps sd dirPath) es st)"
  using assms(2)
proof (induction es arbitrary: st)
  case Nil
  then show ?case by simp
next
  case (Cons e es)
  obtain stk fm an where st: "st = (stk, fm, an)" by (metis prod_cases3)
  have "readInv sep ps K (scanEntry sep ps sd dirPath e st)"
    using scanEntry_inv [OF assms(1) _ assms(3)] Cons.prems st by simp
  then show ?case using Cons.IH by simp
qed

lemma scanTop_inv:
  assumes sep: "sep \<noteq> []" and inv: "readInv sep ps K st" and ne: "fst st \<noteq> []"
  shows "readInv sep ps K (scanTop sep ps sd st)"
proof -
  obtain stk fm an where st: "st = (stk, fm, an)" by (metis prod_cases3)
  obtain dirPath es err where l: "last stk = (dirPath, es, err)" by (metis prod_cases3)
  have "last stk \<in> set stk" using ne st by simp
  then have dp: "ps \<le> length dirPath + length sep"
    using readInv_stack [OF inv [unfolded st], of "last stk"] l by simp
  have "readInv sep ps K (butlast stk, fm, an)"
    using inv st by (auto simp: readInv_def dest: in_set_butlastD)
  then have f: "readInv sep ps K (fold (scanEntry sep ps sd dirPath) es (butlast stk, fm, an))"
    using sep dp by (intro scanEntries_inv)
  obtain stk' fm' an' where r: "fold (scanEntry sep ps sd dirPath) es (butlast stk, fm, an) = (stk', fm', an')"
    by (metis prod_cases3)
  have "fileAliases (scanFailure dirPath err an') = fileAliases an'"
    by (simp add: scanFailure_def split: option.splits)
  then have "readInv sep ps K (stk', fm', scanFailure dirPath err an')"
    using f r by (simp add: readInv_def)
  then show ?thesis using st l r by (simp add: scanTop_def)
qed

lemma readDirectoryLoop_inv:
  "sep \<noteq> [] \<Longrightarrow> readInv sep ps K st \<Longrightarrow> readInv sep ps K (readDirectoryLoop sep ps sd st)"
proof (induction sep ps sd st rule: readDirectoryLoop.induct)
  case (1 sep ps sd st)
  show ?case
  proof (cases "fst st = []")
    case True
    then show ?thesis using "1.prems" by (simp add: readDirectoryLoop.simps)
  next
    case False
    have "readInv sep ps K (scanTop sep ps sd st)"
      using "1.prems" False by (rule scanTop_inv)
    with "1.IH" [OF False "1.prems"(1)] show ?thesis
      using False by (subst readDirectoryLoop.simps) simp
  qed
qed


definition filesInv :: "(LuaGameSubdirectory \<Rightarrow> LuaFileRecord) \<times> Analyzer \<Rightarrow> bool" where
  "filesInv st =
     ((\<forall>d. [] \<notin> fst ` set (fst st d))
      \<and> (\<forall>d. \<forall>e \<in> set (fst st d). name (snd e) = fst e)
      \<and> (\<forall>p. set (fileAliases (snd st) p) \<subseteq> (\<Union>d. fst ` set (fst st d))))"

lemma pathSep_nonempty: "pathSep inp \<noteq> []"
  by (cases "platform inp") (simp_all add: pathSep_def)

lemma UN_split_at: "(\<Union>x. F x) = (\<Union>x \<in> UNIV - {d}. F x) \<union> F d"
  by blast

lemma readGroup_inv:
  assumes "filesInv st"
  shows "filesInv (readGroup inp d st)"
proof -
  obtain files an where st: "st = (files, an)" by (cases st)
  let ?sep = "pathSep inp"
  let ?start = "pathJoin ?sep (inputDirectory inp) (subdirName d)"
  let ?ps = "length ?start + length ?sep"
  let ?K = "\<Union>d' \<in> UNIV - {d}. fst ` set (files d')"
  let ?st0 = "([(?start, fst (groupScan inp d), snd (groupScan inp d))], files d, an)"
  have all: "(\<Union>d'. fst ` set (files d')) = ?K \<union> fst ` set (files d)"
    by (rule UN_split_at)
  have "readInv ?sep ?ps ?K ?st0"
  proof (rule readInvI)
    fix p show "set (fileAliases an p) \<subseteq> ?K \<union> fst ` set (files d)"
      using assms st all by (simp add: filesInv_def)
  qed (use assms st in \<open>auto simp: filesInv_def\<close>)
  with pathSep_nonempty have inv: "readInv ?sep ?ps ?K (readDirectoryLoop ?sep ?ps d ?st0)"
    by (rule readDirectoryLoop_inv)
  obtain stk fm an' where r: "readDirectoryLoop ?sep ?ps d ?st0 = (stk, fm, an')"
    by (metis prod_cases3)
  have rg: "readGroup inp d st = (files(d := fm), an')"
    using st r by (simp add: readGroup_def readDirectory_def)
  have all': "(\<Union>d'. fst ` set ((files(d := fm)) d')) = ?K \<union> fst ` set fm"
    using UN_split_at [of "\<lambda>d'. fst ` set ((files(d := fm)) d')" d] by simp
  have "filesInv (files(d := fm), an')"
    unfolding filesInv_def
  proof (intro conjI allI ballI)
    fix d' show "[] \<notin> fst ` set (fst (files(d := fm), an') d')"
      using readInv_nonempty [OF inv [unfolded r]] assms st by (auto simp: filesInv_def)
  next
    fix d' e assume "e \<in> set (fst (files(d := fm), an') d')"
    then show "name (snd e) = fst e"
      using readInv_name [OF inv [unfolded r]] assms st by (auto simp: filesInv_def split: if_splits)
  next
    fix p show "set (fileAliases (snd (files(d := fm), an')) p) \<subseteq> (\<Union>d'. fst ` set (fst (files(d := fm), an') d'))"
      using readInv_aliases [OF inv [unfolded r], of p] all' by simp
  qed
  then show ?thesis using rg by simp
qed

lemma readAll_inv:
  assumes "fileAliases an = (\<lambda>_. [])"
  shows "filesInv (readAll inp an)"
proof -
  have "filesInv (fold (readGroup inp) ds st)" if "filesInv st" for ds st
    using that by (induction ds arbitrary: st) (simp_all add: readGroup_inv)
  moreover have "filesInv (\<lambda>_. [], an)" using assms by (simp add: filesInv_def)
  ultimately show ?thesis by (simp add: readAll_def)
qed


definition parsedFiles :: "Input \<Rightarrow> LuaGameSubdirectory \<Rightarrow> LuaFileRecord" where
  "parsedFiles inp = fst (readAll inp (startPass DependencyResolution newAnalyzer))"

definition readAliases :: "Input \<Rightarrow> string \<Rightarrow> string list" where
  "readAliases inp = fileAliases (snd (readAll inp (startPass DependencyResolution newAnalyzer)))"

text \<open>
  The file records, \<^verbatim>\<open>fileAliases\<close> and \<^verbatim>\<open>looseDeps\<close> are plain objects keyed by
  file identities, by the alias suffixes of identities and by required names. Reading
  them as maps is what the code does as long as none of these keys is a property name
  that a plain object inherits; \<open>plainKeys\<close> says so for the keys of a run.
\<close>

definition dictionaryKeys :: "Input \<Rightarrow> string list" where
  "dictionaryKeys inp =
     concat (map (\<lambda>e. fst e # aliasNames (fst e) @ fileDependencies (snd e))
               (allEntries (parsedFiles inp)))"

definition plainKeys :: "Input \<Rightarrow> bool" where
  "plainKeys inp = (set (dictionaryKeys inp) \<inter> set objectPrototypeNames = {})"

definition requireEdges ::
  "(LuaGameSubdirectory \<Rightarrow> LuaFileRecord) \<Rightarrow> (string \<Rightarrow> string list) \<Rightarrow> (string \<times> string) list" where
  "requireEdges files aliases =
     concat (map (\<lambda>a. case getFile files a of
                         None \<Rightarrow> []
                       | Some fl \<Rightarrow> map (\<lambda>b. (b, a))
                           (resolved (getDependencyIdentifier files aliases) (fileDependencies fl)))
                 (map fst (allEntries files)))"

definition requireGraph :: "Input \<Rightarrow> (string \<times> string) set" where
  "requireGraph inp = set (requireEdges (parsedFiles inp) (readAliases inp))"

lemma keys_allEntries: "fst ` set (allEntries files) = (\<Union>d. fst ` set (files d))"
  by (auto simp: allEntries_def UNIV_subdirs)

lemma set_requireEdges: "set (requireEdges files aliases) = hardEdges files aliases"
proof (intro set_eqI iffI)
  fix e assume "e \<in> set (requireEdges files aliases)"
  then obtain a where a: "a \<in> set (map fst (allEntries files))"
    and e: "e \<in> set (case getFile files a of
                        None \<Rightarrow> []
                      | Some fl \<Rightarrow> map (\<lambda>b. (b, a))
                          (resolved (getDependencyIdentifier files aliases) (fileDependencies fl)))"
    unfolding requireEdges_def by auto
  then obtain fl where "getFile files a = Some fl"
    by (cases "getFile files a") auto
  with e show "e \<in> hardEdges files aliases"
    by (auto simp: hardEdges_def)
next
  fix e assume "e \<in> hardEdges files aliases"
  then obtain b a fl where e: "e = (b, a)" and f: "getFile files a = Some fl"
    and b: "b \<in> set (resolved (getDependencyIdentifier files aliases) (fileDependencies fl))"
    by (auto simp: hardEdges_def)
  have "getFile files a \<noteq> None" using f by simp
  then have "a \<in> fst ` set (allEntries files)"
    unfolding getFile_None keys_allEntries by blast
  then have a: "a \<in> set (map fst (allEntries files))" by simp
  have "e \<in> set (case getFile files a of
                        None \<Rightarrow> []
                      | Some fl \<Rightarrow> map (\<lambda>b. (b, a))
                          (resolved (getDependencyIdentifier files aliases) (fileDependencies fl)))"
    using e f b by simp
  with a show "e \<in> set (requireEdges files aliases)"
    unfolding requireEdges_def set_concat set_map by blast
qed

lemma map_fst_clear: "map fst (clearGlobalDependencies files d) = map fst (files d)"
  by (simp add: clearGlobalDependencies_def comp_def)

lemma keys_clear: "fst ` set (clearGlobalDependencies files d) = fst ` set (files d)"
  using map_fst_clear [of files d] by (metis set_map)

lemma map_of_clear:
  "map_of (clearGlobalDependencies files d) n
     = map_option (\<lambda>f. f\<lparr>globalDependencies := []\<rparr>) (map_of (files d) n)"
proof -
  have "map_of (map (\<lambda>e. (fst e, g (snd e))) xs) n = map_option g (map_of xs n)" for g :: "LuaFile \<Rightarrow> LuaFile" and xs
    by (induction xs) auto
  then show ?thesis by (simp add: clearGlobalDependencies_def)
qed

lemma getFileIn_clear:
  "getFileIn ds (clearGlobalDependencies files) n
     = map_option (\<lambda>f. f\<lparr>globalDependencies := []\<rparr>) (getFileIn ds files n)"
  by (induction ds) (simp_all add: map_of_clear split: option.splits)

lemma getFile_clear:
  "getFile (clearGlobalDependencies files) n
     = map_option (\<lambda>f. f\<lparr>globalDependencies := []\<rparr>) (getFile files n)"
  by (simp add: getFile_def getFileIn_clear)

lemma getDependencyIdentifier_clear:
  "getDependencyIdentifier (clearGlobalDependencies files) aliases
     = getDependencyIdentifier files aliases"
  by (rule ext) (simp add: getDependencyIdentifier_def getFile_clear)

lemma hardEdges_clear: "hardEdges (clearGlobalDependencies files) aliases = hardEdges files aliases"
  unfolding hardEdges_def getDependencyIdentifier_clear getFile_clear by auto

lemma filesInv_aliasesResolve:
  assumes "filesInv (files, an)"
  shows "aliasesResolve (clearGlobalDependencies files) (fileAliases an)"
  unfolding aliasesResolve_def
proof (intro allI impI)
  fix nm a assume a: "a \<in> set (fileAliases an nm)"
  have "set (fileAliases an nm) \<subseteq> (\<Union>d. fst ` set (files d))"
    using assms by (simp add: filesInv_def)
  with a have "a \<in> (\<Union>d. fst ` set (files d))" by (rule subsetD [rotated])
  then have "\<not> (\<forall>d. a \<notin> fst ` set (clearGlobalDependencies files d))"
    by (simp add: keys_clear)
  then show "getFile (clearGlobalDependencies files) a \<noteq> None"
    by (simp only: getFile_None not_False_eq_True)
qed

lemma readAll_start_inv: "filesInv (readAll inp (startPass DependencyResolution newAnalyzer))"
  by (rule readAll_inv) (simp add: startPass_def newAnalyzer_def)

lemma readAll_split:
  "readAll inp (startPass DependencyResolution newAnalyzer)
     = (parsedFiles inp, snd (readAll inp (startPass DependencyResolution newAnalyzer)))"
  by (simp add: parsedFiles_def)

lemma resolveDependencies_eq:
  "resolveDependencies inp newAnalyzer
     = map_option (\<lambda>order. (orderedFiles (clearGlobalDependencies (parsedFiles inp)) order,
                             snd (readAll inp (startPass DependencyResolution newAnalyzer))))
         (determineOrder (keyOrder inp) (clearGlobalDependencies (parsedFiles inp)) (readAliases inp)
            (computeLooseDeps
               (globalSetters (snd (readAll inp (startPass DependencyResolution newAnalyzer))))
               (parsedFiles inp)))"
  by (simp add: resolveDependencies_def resolveOrder_def parsedFiles_def readAliases_def Let_def
      option.map_comp comp_def split: prod.splits)

lemma resolveDependencies_terminates:
  assumes "acyclic (requireGraph inp)"
  shows "\<exists>out an. resolveDependencies inp newAnalyzer = Some (out, an)"
proof -
  let ?files = "clearGlobalDependencies (parsedFiles inp)"
  have inv: "filesInv (parsedFiles inp, snd (readAll inp (startPass DependencyResolution newAnalyzer)))"
    using readAll_start_inv [of inp] by (simp add: parsedFiles_def)
  have al: "aliasesResolve ?files (readAliases inp)"
    using filesInv_aliasesResolve [OF inv] by (simp add: readAliases_def)
  have g: "hardEdges ?files (readAliases inp) = requireGraph inp"
    by (simp add: hardEdges_clear requireGraph_def set_requireEdges)
  have "finite (requireGraph inp)" by (simp add: requireGraph_def)
  then have "wf (requireGraph inp)" using assms by (rule finite_acyclic_wf)
  then have "wf (hardEdges ?files (readAliases inp))" using g by simp
  from determineOrder_terminates [OF this al]
  obtain order where "determineOrder (keyOrder inp) ?files (readAliases inp)
            (computeLooseDeps
               (globalSetters (snd (readAll inp (startPass DependencyResolution newAnalyzer))))
               (parsedFiles inp)) = Some order"
    by blast
  then show ?thesis by (simp add: resolveDependencies_eq)
qed


definition clearDependencies :: "LuaFile \<Rightarrow> LuaFile" where
  "clearDependencies f = f\<lparr>globalDependencies := [], fileDependencies := []\<rparr>"

lemma orderedFiles_Some:
  assumes "\<And>k. k \<in> set order \<Longrightarrow> getFile files k \<noteq> None"
  shows "map Some (orderedFiles files order)
           = map (\<lambda>k. map_option (\<lambda>f. f\<lparr>fileDependencies := []\<rparr>) (getFile files k)) order"
  using assms
proof (induction order)
  case Nil
  show ?case by (simp add: orderedFiles_def)
next
  case (Cons k order)
  have "getFile files k \<noteq> None" using Cons.prems by simp
  then obtain f where f: "getFile files k = Some f" by auto
  have "orderedFiles files (k # order) = f\<lparr>fileDependencies := []\<rparr> # orderedFiles files order"
    using f by (simp add: orderedFiles_def)
  moreover have "map Some (orderedFiles files order)
           = map (\<lambda>k. map_option (\<lambda>f. f\<lparr>fileDependencies := []\<rparr>) (getFile files k)) order"
    using Cons.prems by (intro Cons.IH) simp
  ultimately show ?case using f by simp
qed

lemma map_Some_eq: "map Some xs = map g ks \<Longrightarrow> map h xs = map (\<lambda>k. h (the (g k))) ks"
proof (induction xs arbitrary: ks)
  case Nil
  then show ?case by simp
next
  case (Cons x xs)
  then obtain k ks' where ks: "ks = k # ks'" by (cases ks) auto
  with Cons.prems have "Some x = g k" "map Some xs = map g ks'" by simp_all
  then show ?case using Cons.IH [of ks'] ks by (simp add: option.expand [symmetric]) (metis option.sel)
qed

lemma name_getFile:
  assumes "filesInv (files, an)" and "getFile files k = Some f"
  shows "name f = k"
proof -
  obtain d where "map_of (files d) k = Some f"
    using assms(2) getFileIn_Some [of gameFileDirectories files k f] by (auto simp: getFile_def)
  then have m: "(k, f) \<in> set (files d)" by (rule map_of_SomeD)
  have "\<forall>e \<in> set (files d). name (snd e) = fst e"
    using assms(1) by (simp add: filesInv_def)
  then have "name (snd (k, f)) = fst (k, f)" using m by (rule bspec)
  then show ?thesis by simp
qed

lemma resolveDependencies_output:
  assumes "resolveDependencies inp newAnalyzer = Some (out, an)"
      and srt: "\<And>ks. set (keyOrder inp ks) = set ks"
  shows "distinct (map name out)
         \<and> set (map name out) = (\<Union>d. fst ` set (parsedFiles inp d))
         \<and> map Some out = map (\<lambda>k. map_option clearDependencies (getFile (parsedFiles inp) k)) (map name out)
         \<and> orderInv (clearGlobalDependencies (parsedFiles inp)) (readAliases inp) (map name out)"
proof -
  let ?files = "parsedFiles inp"
  let ?files' = "clearGlobalDependencies ?files"
  have inv: "filesInv (?files, snd (readAll inp (startPass DependencyResolution newAnalyzer)))"
    using readAll_start_inv [of inp] by (simp add: parsedFiles_def)
  obtain order where det: "determineOrder (keyOrder inp) ?files' (readAliases inp)
            (computeLooseDeps
               (globalSetters (snd (readAll inp (startPass DependencyResolution newAnalyzer))))
               ?files) = Some order"
    and out: "out = orderedFiles ?files' order"
    using assms(1) unfolding resolveDependencies_eq by auto
  have ne: "[] \<notin> fst ` set (?files' d)" for d
    using inv unfolding keys_clear by (simp add: filesInv_def)
  have oi: "orderInv ?files' (readAliases inp) order"
    and so: "set order = {n. getFile ?files' n \<noteq> None}"
    using determineOrder_correct [OF det ne srt] by simp_all
  have has: "getFile ?files' k \<noteq> None" if "k \<in> set order" for k
    using that so by simp
  have ms: "map Some out = map (\<lambda>k. map_option (\<lambda>f. f\<lparr>fileDependencies := []\<rparr>) (getFile ?files' k)) order"
    unfolding out using has by (rule orderedFiles_Some)
  have cl: "map_option (\<lambda>f. f\<lparr>fileDependencies := []\<rparr>) (getFile ?files' k)
              = map_option clearDependencies (getFile ?files k)" for k
    by (simp add: getFile_clear option.map_comp comp_def clearDependencies_def [abs_def])
  have ms': "map Some out = map (\<lambda>k. map_option clearDependencies (getFile ?files k)) order"
    using ms by (simp only: cl)
  have nm: "map name out = order"
  proof -
    have "map name out = map (\<lambda>k. name (the (map_option clearDependencies (getFile ?files k)))) order"
      using ms' by (rule map_Some_eq)
    also have "\<dots> = map (\<lambda>k. k) order"
    proof (rule map_cong [OF refl])
      fix k assume "k \<in> set order"
      then have "getFile ?files k \<noteq> None" using has [of k] by (simp add: getFile_clear)
      then obtain f where f: "getFile ?files k = Some f" by auto
      then have "name f = k" using inv by (intro name_getFile)
      then show "name (the (map_option clearDependencies (getFile ?files k))) = k"
        using f by (simp add: clearDependencies_def)
    qed
    finally show ?thesis by simp
  qed
  have "set order = (\<Union>d. fst ` set (?files d))"
    unfolding so using getFile_None [of ?files'] by (auto simp: keys_clear)
  then show ?thesis using oi ms' nm by (simp add: orderInv_def)
qed

lemma resolveDependencies_precedes:
  assumes "resolveDependencies inp newAnalyzer = Some (out, an)"
      and "\<And>ks. set (keyOrder inp ks) = set ks"
      and "(b, a) \<in> requireGraph inp"
  shows "precedes b a (map name out)"
proof -
  let ?files' = "clearGlobalDependencies (parsedFiles inp)"
  have oi: "orderInv ?files' (readAliases inp) (map name out)"
    and all: "set (map name out) = (\<Union>d. fst ` set (parsedFiles inp d))"
    using resolveDependencies_output [OF assms(1,2)] by simp_all
  have "(b, a) \<in> hardEdges ?files' (readAliases inp)"
    using assms(3) by (simp add: hardEdges_clear requireGraph_def set_requireEdges)
  then obtain fl where f: "getFile ?files' a = Some fl"
    and b: "b \<in> set (resolved (getDependencyIdentifier ?files' (readAliases inp)) (fileDependencies fl))"
    by (auto simp: hardEdges_def)
  have "getFile ?files' a \<noteq> None" using f by simp
  then have "a \<in> (\<Union>d. fst ` set (parsedFiles inp d))"
    unfolding getFile_None keys_clear by blast
  then have "a \<in> set (map name out)" using all by simp
  then obtain fl' where "getFile ?files' a = Some fl'"
    "\<forall>b \<in> set (resolved (getDependencyIdentifier ?files' (readAliases inp)) (fileDependencies fl')).
        precedes b a (map name out)"
    using oi unfolding orderInv_def by fastforce
  then show ?thesis using f b by simp
qed



section \<open>Properties of the scope walk\<close>

lemma set_setDelete: "set (setDelete x xs) = set xs - {x}"
  by (auto simp: setDelete_def)

lemma set_fold_setDelete: "set (fold setDelete ds xs) = set xs - set ds"
  by (induction ds arbitrary: xs) (auto simp: set_setDelete)

lemma globalsSet_updBlock [simp]: "globalsSet (updBlock i f file) = globalsSet file"
  by (simp add: updBlock_def)

lemma globalDependencies_updBlock [simp]:
  "globalDependencies (updBlock i f file) = globalDependencies file"
  by (simp add: updBlock_def)

lemma fileDependencies_updBlock [simp]:
  "fileDependencies (updBlock i f file) = fileDependencies file"
  by (simp add: updBlock_def)

text \<open>
  The string-call form \<^verbatim>\<open>require "a/b/c"\<close> is recorded as the file dependency
  \<^verbatim>\<open>a/b/c\<close> and nothing is read as a global.
\<close>

lemma require_string_call_recorded:
  "map_option (\<lambda>f. (fileDependencies f, globalDependencies f))
     (processFile DependencyResolution
        (newLuaFile [CallStatement (StringCallExpression (Identifier ''require'')
                       (StringLiteral None ''\"a/b/c\"''))] Shared ''main''))
     = Some ([''a/b/c''], [])"
  by code_simp

text \<open>
  C1. A call of the bare identifier \<^verbatim>\<open>require\<close> with a single string-literal argument
  should be recorded as a file dependency and not as an ordinary call. For the call
  form \<^verbatim>\<open>require("a/b/c")\<close> the code looks at \<^verbatim>\<open>arguments.at(1)\<close>, the second
  argument, which does not exist: no file dependency is recorded and the callee
  \<^verbatim>\<open>require\<close> is read as a global.
\<close>

theorem require_call_not_recorded:
  "map_option (\<lambda>f. (fileDependencies f, globalDependencies f))
     (processFile DependencyResolution
        (newLuaFile [CallStatement (CallExpression (Identifier ''require'')
                       [StringLiteral None ''\"a/b/c\"''])] Shared ''main''))
     = Some ([], [''require''])"
  by code_simp

text \<open>
  C3. Every name of a local declaration should be bound for the reads that follow. In
  the dependency pass \<^verbatim>\<open>addLocalAssignment\<close> returns from inside the first iteration of
  its loop, so after \<^verbatim>\<open>local a, b = 1, 2\<close> only \<^verbatim>\<open>a\<close> is bound: in
  \<^verbatim>\<open>return a, b\<close> the read of \<^verbatim>\<open>b\<close> is recorded as a global dependency.
\<close>

theorem local_second_name_read_as_global:
  "map_option globalDependencies
     (processFile DependencyResolution
        (newLuaFile [LocalStatement [''a'', ''b''] [NumericLiteral ''1'', NumericLiteral ''2''],
                     ReturnStatement [Identifier ''a'', Identifier ''b'']] Shared ''main''))
     = Some [''b'']"
  by code_simp

text \<open>
  C10. The two passes gate each other's mutations: in the type-resolution pass
  \<^verbatim>\<open>addFileDependency\<close>, \<^verbatim>\<open>addGlobalDependency\<close> and \<^verbatim>\<open>addGlobalSet\<close> change nothing,
  and in the dependency-resolution pass \<^verbatim>\<open>addCall\<close> and \<^verbatim>\<open>addReturn\<close> change nothing.
\<close>

theorem pass_gates:
  "addFileDependency TypeResolution nm file = file
   \<and> addGlobalDependency TypeResolution nm file = file
   \<and> addGlobalSet TypeResolution nm file = file
   \<and> addCall DependencyResolution this base args file = file
   \<and> addReturn DependencyResolution this stmt file = file"
  by (simp add: addFileDependency_def addGlobalDependency_def addGlobalSet_def
      addCall_def addReturn_def)

lemma globalsSet_cleanup [simp]: "globalsSet (cleanup f) = globalsSet f"
  by (simp add: cleanup_def)

lemma globalDependencies_cleanup:
  "set (globalDependencies (cleanup f)) = set (globalDependencies f) - set (globalsSet f)"
  by (simp add: cleanup_def set_fold_setDelete)

lemma getLocal_root: "getLocal bs 0 x = (if bs = [] then None else readLocals (bs ! 0) 0 x)"
  by (subst getLocal.simps) (auto split: option.splits)

lemma readLocals_grows:
  assumes "grows f f'" and "i < length (blocks f)" and "readLocals (blocks f ! i) i x \<noteq> None"
  shows "readLocals (blocks f' ! i) i x \<noteq> None"
proof -
  have m: "locals (blocks f ! i) y \<noteq> None \<Longrightarrow> locals (blocks f' ! i) y \<noteq> None" for y
    using assms(1,2) by (simp add: grows_def)
  show ?thesis using assms(3) m [of x] m [of "''__proto__''"]
    unfolding readLocals_def by (auto split: if_splits)
qed

lemma forEach_split:
  assumes "forEach g xs s = Some s'" and "x \<in> set xs"
  shows "\<exists>pre post s1 s2. xs = pre @ x # post \<and> forEach g pre s = Some s1 \<and> g x s1 = Some s2
           \<and> forEach g post s2 = Some s'"
  using assms
proof (induction xs arbitrary: s)
  case Nil
  then show ?case by simp
next
  case (Cons y ys)
  obtain t where t: "g y s = Some t" and r: "forEach g ys t = Some s'"
    using Cons.prems(1) by (auto simp: bind_eq_Some_conv)
  show ?case
  proof (cases "x = y")
    case True
    have "y # ys = [] @ x # ys \<and> forEach g [] s = Some s \<and> g x s = Some t \<and> forEach g ys t = Some s'"
      using True t r by simp
    then show ?thesis by blast
  next
    case False
    then have "x \<in> set ys" using Cons.prems(2) by simp
    from Cons.IH [OF r this] obtain pre post s1 s2 where
      "ys = pre @ x # post" "forEach g pre t = Some s1" "g x s1 = Some s2" "forEach g post s2 = Some s'"
      by blast
    then have "y # ys = (y # pre) @ x # post \<and> forEach g (y # pre) s = Some s1 \<and> g x s1 = Some s2
                 \<and> forEach g post s2 = Some s'"
      using t by simp
    then show ?thesis by blast
  qed
qed

lemma assignTarget_dependency:
  assumes "assignTarget DependencyResolution this a left f = Some f'"
  shows "blocks f' = blocks f"
    and "set (globalsSet f) \<subseteq> set (globalsSet f')"
    and "left = Identifier x \<Longrightarrow> getLocal (blocks f) this x = None \<Longrightarrow> x \<in> set (globalsSet f')"
  using assms
  by (auto simp: assignTarget_def addGlobalSet_def setAdd_def split: expression.splits option.splits)

lemma forEach_assignTarget_dependency:
  assumes "forEach (assignTarget DependencyResolution this a) ls f = Some f'"
  shows "blocks f' = blocks f \<and> set (globalsSet f) \<subseteq> set (globalsSet f')
         \<and> (\<forall>x. Identifier x \<in> set ls \<and> getLocal (blocks f) this x = None \<longrightarrow> x \<in> set (globalsSet f'))"
  using assms
proof (induction ls arbitrary: f)
  case Nil
  then show ?case by simp
next
  case (Cons l ls)
  obtain f1 where f1: "assignTarget DependencyResolution this a l f = Some f1"
    and r: "forEach (assignTarget DependencyResolution this a) ls f1 = Some f'"
    using Cons.prems by (auto simp: bind_eq_Some_conv)
  note t = assignTarget_dependency [OF f1]
  note ih = Cons.IH [OF r]
  show ?case
  proof (intro conjI allI impI)
    show "blocks f' = blocks f" using ih t(1) by simp
    show "set (globalsSet f) \<subseteq> set (globalsSet f')" using ih t(2) by blast
  next
    fix x assume x: "Identifier x \<in> set (l # ls) \<and> getLocal (blocks f) this x = None"
    show "x \<in> set (globalsSet f')"
    proof (cases "l = Identifier x")
      case True
      then have "x \<in> set (globalsSet f1)" using t(3) x by simp
      then show ?thesis using ih by blast
    next
      case False
      then have "Identifier x \<in> set ls" using x by auto
      moreover have "getLocal (blocks f1) this x = None" using x t(1) by simp
      ultimately show ?thesis using ih by blast
    qed
  qed
qed

lemma addAssignment_dependency:
  assumes "addAssignment DependencyResolution this ls rs f = Some f'"
      and "Identifier x \<in> set ls"
  shows "x \<in> set (globalsSet f') \<or> getLocal (blocks f') this x \<noteq> None"
proof -
  let ?a = "\<lparr>assignTypes = map (assignTypeOf (blocks f) this) ls, lhs = ls, rhs = rs\<rparr>"
  have fe: "forEach (assignTarget DependencyResolution this ?a) ls f = Some f'"
    using assms(1) by (auto simp: addAssignment_def Let_def)
  from forEach_assignTarget_dependency [OF fe] assms(2) show ?thesis by auto
qed

text \<open>
  A target of an assignment statement of the chunk's body is, once the statement has
  been walked, a global the file sets, unless the name reads as bound in the file's own
  block.
\<close>

lemma toplevel_assignment_walked:
  assumes ps: "processStatement (AssignmentStatement vars init) 0 w = Some w'"
      and p: "pass w = DependencyResolution"
      and x: "Identifier x \<in> set vars"
  shows "x \<in> set (globalsSet (curFileBlock w'))
         \<or> (blocks (curFileBlock w') \<noteq> [] \<and> readLocals (blocks (curFileBlock w') ! 0) 0 x \<noteq> None)"
proof -
  obtain ls rs w1 where pa: "prepareAssignment vars init 0 w = Some (ls, rs, w1)"
    and aa: "map_option (\<lambda>file. w1\<lparr>curFileBlock := file\<rparr>)
               (addAssignment (pass w1) 0 ls rs (curFileBlock w1)) = Some w'"
    using ps by (auto simp: readAssignStatement_def bind_eq_Some_conv)
  have ls: "ls = vars" using pa by (auto simp: prepareAssignment_def)
  have "pass w1 = pass w" using extends_prepareAssignment [OF pa] by (simp add: extends_Some)
  then have p1: "pass w1 = DependencyResolution" using p by simp
  obtain f' where f': "addAssignment DependencyResolution 0 vars rs (curFileBlock w1) = Some f'"
    and w': "w' = w1\<lparr>curFileBlock := f'\<rparr>"
    using aa p1 ls by auto
  from addAssignment_dependency [OF f' x] show ?thesis
    using w' by (auto simp: getLocal_root split: if_splits)
qed

lemma processBlock_root_assignment:
  assumes pb: "processBlock (0, nd) w = Some w'"
      and p: "pass w = DependencyResolution"
      and s: "AssignmentStatement vars init \<in> set (nodeBody nd)"
      and x: "Identifier x \<in> set vars"
      and ne: "blocks (curFileBlock w) \<noteq> []"
  shows "x \<in> set (globalsSet (curFileBlock w')) \<or> readLocals (blocks (curFileBlock w') ! 0) 0 x \<noteq> None"
proof -
  let ?g = "\<lambda>s. processStatement s 0"
  have fe: "forEach ?g (nodeBody nd) w = Some w'" using pb by (simp add: processBlock_def)
  from forEach_split [OF fe s] obtain pre post w1 w2 where
    pre: "forEach ?g pre w = Some w1" and st: "processStatement (AssignmentStatement vars init) 0 w1 = Some w2"
    and post: "forEach ?g post w2 = Some w'"
    by blast
  have e1: "extends w (Some w1)"
    using extends_forEach [of ?g w pre, OF extends_processStatement] pre by simp
  have e2: "extends w2 (Some w')"
    using extends_forEach [of ?g w2 post, OF extends_processStatement] post by simp
  have p1: "pass w1 = DependencyResolution" using e1 p by (simp add: extends_Some)
  have g2: "grows (curFileBlock w2) (curFileBlock w')" using e2 by (simp add: extends_Some)
  from toplevel_assignment_walked [OF st p1 x]
  show ?thesis
  proof
    assume "x \<in> set (globalsSet (curFileBlock w2))"
    then show ?thesis using g2 by (auto simp: grows_def)
  next
    assume a: "blocks (curFileBlock w2) \<noteq> [] \<and> readLocals (blocks (curFileBlock w2) ! 0) 0 x \<noteq> None"
    then have "0 < length (blocks (curFileBlock w2))" by simp
    from readLocals_grows [OF g2 this] a show ?thesis by simp
  qed
qed

lemma processFile_toplevel_assignment:
  assumes pf: "processFile DependencyResolution (newLuaFile tree sd nm) = Some walked"
      and s: "AssignmentStatement vars init \<in> set tree"
      and x: "Identifier x \<in> set vars"
  shows "x \<in> set (globalsSet walked) \<or> readLocals (blocks walked ! 0) 0 x \<noteq> None"
proof -
  let ?f = "newLuaFile tree sd nm"
  let ?w = "\<lparr>pass = DependencyResolution, curFileBlock = ?f, stack = [(0, Chunk tree)]\<rparr>"
  let ?v = "?w\<lparr>stack := butlast (stack ?w)\<rparr>"
  obtain wf where lp: "processLoop ?w = Some wf" and wk: "walked = curFileBlock wf"
    using pf by (auto simp: processFile_def newLuaFile_def emptyBlock_def)
  obtain w1 where pb: "processBlock (0, Chunk tree) ?v = Some w1" and rest: "processLoop w1 = Some wf"
    using lp by (subst (asm) processLoop.simps) (auto simp: bind_eq_Some_conv)
  have g: "grows (curFileBlock w1) (curFileBlock wf)"
    using extends_processLoop [of w1] rest by (simp add: extends_Some)
  have g1: "grows (curFileBlock ?v) (curFileBlock w1)"
    using extends_processBlock [of ?v "(0, Chunk tree)"] pb by (simp add: extends_Some)
  have "length (blocks (curFileBlock ?v)) \<le> length (blocks (curFileBlock w1))"
    using g1 unfolding grows_def by (elim conjE)
  then have len: "0 < length (blocks (curFileBlock w1))"
    by (simp add: newLuaFile_def Suc_le_eq)
  have "x \<in> set (globalsSet (curFileBlock w1)) \<or> readLocals (blocks (curFileBlock w1) ! 0) 0 x \<noteq> None"
    by (rule processBlock_root_assignment [OF pb _ _ x, of init]) (simp_all add: s newLuaFile_def)
  then show ?thesis
  proof
    assume "x \<in> set (globalsSet (curFileBlock w1))"
    then show ?thesis using g wk by (auto simp: grows_def)
  next
    assume "readLocals (blocks (curFileBlock w1) ! 0) 0 x \<noteq> None"
    from readLocals_grows [OF g len this] show ?thesis using wk by simp
  qed
qed

lemma looseDepsOf_subset:
  "set (fold (\<lambda>x acc. case setters x of [] \<Rightarrow> acc | setter # rest \<Rightarrow> setAdd setter acc) xs acc)
     \<subseteq> set acc \<union> {hd (setters x) | x. x \<in> set xs \<and> setters x \<noteq> []}"
proof (induction xs arbitrary: acc)
  case Nil
  show ?case by simp
next
  case (Cons y ys)
  show ?case
  proof (cases "setters y")
    case Nil
    then show ?thesis using Cons.IH [of acc] by auto
  next
    case (Cons s rest)
    have h: "s = hd (setters y)" "setters y \<noteq> []" using Cons by simp_all
    have "set (fold (\<lambda>x acc. case setters x of [] \<Rightarrow> acc | setter # rest \<Rightarrow> setAdd setter acc)
                 (y # ys) acc)
            \<subseteq> insert s (set acc) \<union> {hd (setters x) | x. x \<in> set ys \<and> setters x \<noteq> []}"
      using Cons.IH [of "setAdd s acc"] Cons by (simp add: set_setAdd)
    also have "\<dots> \<subseteq> set acc \<union> {hd (setters x) | x. x \<in> set (y # ys) \<and> setters x \<noteq> []}"
      using h by fastforce
    finally show ?thesis .
  qed
qed

lemma looseDepsOf_member:
  assumes "nm \<in> set (looseDepsOf setters f)"
  shows "\<exists>x \<in> set (globalDependencies f). setters x \<noteq> [] \<and> hd (setters x) = nm"
  using assms looseDepsOf_subset [of setters "globalDependencies f" "[]"]
  unfolding looseDepsOf_def by auto

lemma setters_fold:
  "nm \<in> set (fold (\<lambda>x gs. gs(x := setAdd n (gs x))) xs gs g)
     \<longleftrightarrow> nm \<in> set (gs g) \<or> (nm = n \<and> g \<in> set xs)"
  by (induction xs arbitrary: gs) (auto simp: set_setAdd)


text \<open>
  In the dependency pass nothing is pushed to a history, so the walk does not throw.
\<close>

definition completes :: "Walk \<Rightarrow> Walk option \<Rightarrow> bool" where
  "completes w r = (pass w = DependencyResolution \<longrightarrow> r \<noteq> None)"

lemma completes_Some [simp]: "completes w (Some w')"
  by (simp add: completes_def)

lemma completes_bind:
  assumes "completes w m" and "extends w m" and "\<And>w'. m = Some w' \<Longrightarrow> completes w' (g w')"
  shows "completes w (Option.bind m g)"
proof (cases m)
  case None
  then show ?thesis using assms(1) by (simp add: completes_def)
next
  case (Some w')
  have "pass w' = pass w" using assms(2) Some by (simp add: extends_Some)
  then show ?thesis using assms(3) [OF Some] Some by (simp add: completes_def)
qed

lemma completes_forEach:
  assumes "\<And>x w. completes w (g x w)" and "\<And>x w. extends w (g x w)"
  shows "completes w (forEach g xs w)"
proof (induction xs arbitrary: w)
  case Nil
  show ?case by simp
next
  case (Cons x xs)
  show ?case using completes_bind [OF assms(1) assms(2) Cons.IH] by simp
qed

lemma addLocalAssignment_dependency:
  "ls \<noteq> [] \<or> ex = None \<Longrightarrow> \<exists>f'. addLocalAssignment DependencyResolution this ls rs ex f = Some f'"
  by (auto simp: addLocalAssignment_def Let_def)

lemma constructLocals_dependency: "\<exists>f'. constructLocals DependencyResolution this nd par f = Some f'"
  by (auto simp: constructLocals_def Let_def addLocalAssignment_dependency
      split: LuaBlockNode.splits funcdecl.splits option.splits expression.splits prod.splits)

lemma completes_pushBlock [simp]: "completes w (pushBlock nd b w)"
  using constructLocals_dependency [of "length (blocks (curFileBlock w))" nd "Some b"
          "curFileBlock w\<lparr>blocks := blocks (curFileBlock w) @ [emptyBlock nd]\<rparr>"]
  by (auto simp: completes_def pushBlock_def newLuaBlock_def Let_def)

lemma forEach_assignTarget_completes:
  "forEach (assignTarget DependencyResolution this a) ls f \<noteq> None"
proof (induction ls arbitrary: f)
  case Nil
  show ?case by simp
next
  case (Cons l ls)
  have "\<exists>f1. assignTarget DependencyResolution this a l f = Some f1"
    by (simp add: assignTarget_def split: expression.splits option.splits)
  then obtain f1 where "assignTarget DependencyResolution this a l f = Some f1" ..
  then show ?case using Cons.IH [of f1] by simp
qed

lemma addAssignment_completes: "addAssignment DependencyResolution this ls rs f \<noteq> None"
  by (simp add: addAssignment_def Let_def forEach_assignTarget_completes)

lemma completes_readExpression:
  "completes w (readExpression e b w)"
  "completes w (readExpressions es b w)"
  "completes w (readFields fs b w)"
proof (induction e b w and es b w and fs b w rule: readExpression_readExpressions_readFields.induct)
  case (4 base args block w)
  obtain t w' where tr: "tryReadRequire (CallExpression base args) w = (t, w')"
    by fastforce
  have e0: "extends w (Some w')" using tr by (rule extends_tryReadRequire)
  show ?case
  proof (cases t)
    case True
    then show ?thesis using tr by simp
  next
    case False
    have a: "completes w' (readExpression base block w')"
      using "4.IH"(1) tr False by simp
    have b: "completes w1 (Option.bind (readExpressions args block w1)
                          (\<lambda>w2. Some (readCallExpression base args block w2)))"
      if "readExpression base block w' = Some w1" for w1
    proof (rule completes_bind)
      show "completes w1 (readExpressions args block w1)"
        using "4.IH"(2) tr False that by simp
    qed (simp_all add: extends_readExpression)
    have "completes w' (Option.bind (readExpression base block w') (\<lambda>w1.
               Option.bind (readExpressions args block w1)
                 (\<lambda>w2. Some (readCallExpression base args block w2))))"
      using a extends_readExpression(1) b by (rule completes_bind)
    moreover have "pass w' = pass w" using e0 by (simp add: extends_Some)
    ultimately show ?thesis using tr False by (simp add: completes_def)
  qed
next
  case (6 base arg block w)
  obtain t w' where tr: "tryReadRequire (StringCallExpression base arg) w = (t, w')"
    by fastforce
  have e0: "extends w (Some w')" using tr by (rule extends_tryReadRequire)
  show ?case
  proof (cases t)
    case True
    then show ?thesis using tr by simp
  next
    case False
    have a: "completes w' (readExpression base block w')"
      using "6.IH"(1) tr False by simp
    have b: "completes w1 (readExpression arg block w1)"
      if "readExpression base block w' = Some w1" for w1
      using "6.IH"(2) tr False that by simp
    have "completes w' (Option.bind (readExpression base block w') (readExpression arg block))"
      using a extends_readExpression(1) b by (rule completes_bind)
    moreover have "pass w' = pass w" using e0 by (simp add: extends_Some)
    ultimately show ?thesis using tr False by (simp add: completes_def)
  qed
next
  case (20 k v fs block w)
  have b: "completes w1 (Option.bind (readExpression k block w1) (readFields fs block))"
    if "readExpression v block w = Some w1" for w1
    using "20.IH"(2) [OF that] extends_readExpression(1) "20.IH"(3) [OF that]
    by (rule completes_bind)
  show ?case using completes_bind [OF "20.IH"(1) extends_readExpression(1) b] by simp
qed (auto intro: completes_bind extends_readExpression)

lemma completes_readTargetBases: "completes w (readTargetBases vs b w)"
  by (induction vs b w rule: readTargetBases.induct)
     (auto intro: completes_bind extends_readExpression completes_readExpression)

lemma completes_prepareAssignment:
  "pass w = DependencyResolution \<Longrightarrow> prepareAssignment vars init b w \<noteq> None"
proof -
  assume p: "pass w = DependencyResolution"
  have "completes w (Option.bind (readExpressions (take (length vars) init) b w) (readTargetBases vars b))"
    by (rule completes_bind)
       (rule completes_readExpression extends_readExpression completes_readTargetBases)+
  then show ?thesis using p by (simp add: completes_def prepareAssignment_def)
qed

lemma completes_readAssignStatement: "completes w (readAssignStatement vars init b w)"
  unfolding completes_def
proof
  assume p: "pass w = DependencyResolution"
  obtain ls rs w' where pa: "prepareAssignment vars init b w = Some (ls, rs, w')"
    using completes_prepareAssignment [OF p, of vars init b] by (metis not_None_eq prod_cases3)
  have "pass w' = DependencyResolution"
    using extends_prepareAssignment [OF pa] p by (simp add: extends_Some)
  then show "readAssignStatement vars init b w \<noteq> None"
    using pa addAssignment_completes by (simp add: readAssignStatement_def)
qed

lemma completes_readLocalStatement: "completes w (readLocalStatement vars init b w)"
  unfolding completes_def
proof
  assume p: "pass w = DependencyResolution"
  obtain ls rs w' where pa: "prepareAssignment (map Identifier vars) init b w = Some (ls, rs, w')"
    using completes_prepareAssignment [OF p, of "map Identifier vars" init b]
    by (metis not_None_eq prod_cases3)
  have "pass w' = DependencyResolution"
    using extends_prepareAssignment [OF pa] p by (simp add: extends_Some)
  then show "readLocalStatement vars init b w \<noteq> None"
    using pa addLocalAssignment_dependency [of vars None b rs "curFileBlock w'"]
    by (auto simp: readLocalStatement_def)
qed

lemma completes_processStatement: "completes w (processStatement s b w)"
proof (cases s)
  case (ReturnStatement args)
  then show ?thesis using completes_readExpression(2) [of w args b]
    by (simp add: completes_def)
next
  case (ForGenericStatement vars iters body)
  then show ?thesis
    by (auto intro: completes_bind extends_readExpression completes_readExpression)
qed (simp_all add: completes_readLocalStatement completes_readAssignStatement
       completes_readExpression completes_forEach)

lemma completes_processBlock: "completes w (processBlock e w)"
  unfolding processBlock_def
  by (rule completes_forEach) (rule completes_processStatement extends_processStatement)+

lemma completes_processLoop: "completes w (processLoop w)"
proof (induction w rule: processLoop.induct)
  case (1 w)
  show ?case
  proof (cases "stack w = []")
    case True
    then show ?thesis by (simp add: processLoop.simps)
  next
    case False
    let ?v = "w\<lparr>stack := butlast (stack w)\<rparr>"
    have "completes ?v (Option.bind (processBlock (last (stack w)) ?v) processLoop)"
      using completes_processBlock extends_processBlock "1.IH" [OF False] by (rule completes_bind)
    then show ?thesis
      using False by (subst processLoop.simps) (simp add: completes_def)
  qed
qed

lemma processFile_dependency: "processFile DependencyResolution f \<noteq> None"
  using completes_processLoop
  by (auto simp: processFile_def completes_def split: list.splits)


definition exampleInput :: "Dirent list \<Rightarrow> Dirent list \<Rightarrow> Dirent list \<Rightarrow> Input" where
  "exampleInput sh sv cl =
     \<lparr>inputDirectory = ''media/lua'', platform = Posix,
      groupScan = (\<lambda>d. case d of Shared \<Rightarrow> (sh, None) | Server \<Rightarrow> (sv, None) | Client \<Rightarrow> (cl, None)),
      keyOrder = sortKeys\<rparr>"

definition setsAndPrintsG :: "statement list" where
  "setsAndPrintsG =
     [AssignmentStatement [Identifier ''G''] [NumericLiteral ''1''],
      CallStatement (CallExpression (Identifier ''print'') [Identifier ''G''])]"

definition printsG :: "statement list" where
  "printsG = [CallStatement (CallExpression (Identifier ''print'') [Identifier ''G''])]"

definition exampleSelfLoop :: Input where
  "exampleSelfLoop =
     exampleInput [FileEntry ''foo.lua'' (ParsedChunk setsAndPrintsG)] []
       [FileEntry ''foo.lua'' (ParsedChunk printsG)]"

lemma setsAndPrintsG_walked:
  "map_option (\<lambda>walked. readLocals (blocks walked ! 0) 0 ''G'')
     (processFile DependencyResolution (newLuaFile setsAndPrintsG Shared ''foo'')) = Some None"
  by code_simp

text \<open>
  C9. After the dependency walk of a file and its \<^verbatim>\<open>cleanup\<close>, no global that the file
  writes at top level should be left among the globals it depends on, so that the file
  gets no loose dependency on itself. \<^verbatim>\<open>readFile\<close> walks the tree, which does not throw
  in this pass, and cleans up. \<^verbatim>\<open>cleanup\<close> keeps \<open>globalsSet\<close> as the walk recorded it
  and removes its members from \<open>globalDependencies\<close>. Every identifier that an assignment
  statement of the chunk's body targets is in that set, unless the name reads as bound
  in the file's own block; so it is not among the dependencies left. The file's
  identity is then entered as a setter of exactly the globals in \<open>globalsSet\<close>.
  Loose dependencies are looked up by identity: the file has none on its own identity
  for every setter table in which that identity is a setter only of globals the file
  sets, which is the case when no other file read has the same identity.
\<close>

theorem own_globals_dropped:
  assumes "Analyzer.pass an = DependencyResolution"
  shows "\<exists>walked an'.
           processFile DependencyResolution (newLuaFile tree subdir nm) = Some walked
         \<and> readFile filePath (ParsedChunk tree) subdir nm an = (Some (cleanup walked), an')
         \<and> globalsSet (cleanup walked) = globalsSet walked
         \<and> set (globalDependencies (cleanup walked))
             = set (globalDependencies walked) - set (globalsSet walked)
         \<and> (\<forall>vars init x. AssignmentStatement vars init \<in> set tree \<longrightarrow> Identifier x \<in> set vars
               \<longrightarrow> readLocals (blocks walked ! 0) 0 x = None
               \<longrightarrow> x \<in> set (globalsSet (cleanup walked))
                   \<and> x \<notin> set (globalDependencies (cleanup walked)))
         \<and> (\<forall>g. nm \<in> set (globalSetters an' g)
               \<longleftrightarrow> nm \<in> set (globalSetters an g) \<or> g \<in> set (globalsSet (cleanup walked)))
         \<and> (\<forall>setters. (\<forall>g. nm \<in> set (setters g) \<longrightarrow> g \<in> set (globalsSet (cleanup walked)))
               \<longrightarrow> nm \<notin> set (looseDepsOf setters (cleanup walked)))"
proof -
  obtain walked where w: "processFile DependencyResolution (newLuaFile tree subdir nm) = Some walked"
    using processFile_dependency [of "newLuaFile tree subdir nm"] by auto
  let ?file = "cleanup walked"
  let ?an' = "an\<lparr>globalSetters :=
                 fold (\<lambda>x gs. gs(x := setAdd nm (gs x))) (globalsSet ?file) (globalSetters an)\<rparr>"
  have rf: "readFile filePath (ParsedChunk tree) subdir nm an = (Some ?file, ?an')"
    using assms w by (simp add: readFile_def Let_def)
  have gd: "set (globalDependencies ?file) = set (globalDependencies walked) - set (globalsSet walked)"
    by (rule globalDependencies_cleanup)
  have top: "x \<in> set (globalsSet ?file) \<and> x \<notin> set (globalDependencies ?file)"
    if "AssignmentStatement vars init \<in> set tree" "Identifier x \<in> set vars"
       "readLocals (blocks walked ! 0) 0 x = None" for vars init x
    using processFile_toplevel_assignment [OF w that(1,2)] that(3) gd by simp
  have st: "nm \<in> set (globalSetters ?an' g)
              \<longleftrightarrow> nm \<in> set (globalSetters an g) \<or> g \<in> set (globalsSet ?file)" for g
    by (simp add: setters_fold)
  have loose: "nm \<notin> set (looseDepsOf setters ?file)"
    if h: "\<forall>g. nm \<in> set (setters g) \<longrightarrow> g \<in> set (globalsSet ?file)" for setters
  proof
    assume "nm \<in> set (looseDepsOf setters ?file)"
    then obtain x where x: "x \<in> set (globalDependencies ?file)" "setters x \<noteq> []" "hd (setters x) = nm"
      using looseDepsOf_member by blast
    then have "nm \<in> set (setters x)" using hd_in_set by blast
    then have "x \<in> set (globalsSet ?file)" using h by simp
    then show False using x(1) gd by simp
  qed
  show ?thesis
    using w rf gd top st loose by (intro exI [of _ walked] exI [of _ ?an'] conjI) auto
qed

theorem own_globals_dropped_witness:
  "''G'' \<in> set (globalsSet (the (fst (readFile ''media/lua/shared/foo.lua''
       (ParsedChunk setsAndPrintsG) Shared ''foo'' (startPass DependencyResolution newAnalyzer)))))
   \<and> ''foo'' \<notin> set (looseDepsOf
       (globalSetters (snd (readFile ''media/lua/shared/foo.lua''
          (ParsedChunk setsAndPrintsG) Shared ''foo'' (startPass DependencyResolution newAnalyzer))))
       (the (fst (readFile ''media/lua/shared/foo.lua''
          (ParsedChunk setsAndPrintsG) Shared ''foo'' (startPass DependencyResolution newAnalyzer)))))"
proof -
  let ?an = "startPass DependencyResolution newAnalyzer"
  have p: "Analyzer.pass ?an = DependencyResolution" by (simp add: startPass_def)
  from own_globals_dropped [OF p, of setsAndPrintsG Shared "''foo''" "''media/lua/shared/foo.lua''"]
  obtain walked an' where
    w: "processFile DependencyResolution (newLuaFile setsAndPrintsG Shared ''foo'') = Some walked"
    and rf: "readFile ''media/lua/shared/foo.lua'' (ParsedChunk setsAndPrintsG) Shared ''foo'' ?an
               = (Some (cleanup walked), an')"
    and top: "\<forall>vars init x. AssignmentStatement vars init \<in> set setsAndPrintsG \<longrightarrow> Identifier x \<in> set vars
               \<longrightarrow> readLocals (blocks walked ! 0) 0 x = None
               \<longrightarrow> x \<in> set (globalsSet (cleanup walked)) \<and> x \<notin> set (globalDependencies (cleanup walked))"
    and st: "\<forall>g. ''foo'' \<in> set (globalSetters an' g)
               \<longleftrightarrow> ''foo'' \<in> set (globalSetters ?an g) \<or> g \<in> set (globalsSet (cleanup walked))"
    and loose: "\<forall>setters. (\<forall>g. ''foo'' \<in> set (setters g) \<longrightarrow> g \<in> set (globalsSet (cleanup walked)))
               \<longrightarrow> ''foo'' \<notin> set (looseDepsOf setters (cleanup walked))"
    by blast
  have "readLocals (blocks walked ! 0) 0 ''G'' = None"
    using setsAndPrintsG_walked w by simp
  moreover have "AssignmentStatement [Identifier ''G''] [NumericLiteral ''1''] \<in> set setsAndPrintsG"
    by (simp add: setsAndPrintsG_def)
  ultimately have "''G'' \<in> set (globalsSet (cleanup walked))"
    using top by (metis list.set_intros(1))
  moreover have "\<forall>g. ''foo'' \<in> set (globalSetters an' g) \<longrightarrow> g \<in> set (globalsSet (cleanup walked))"
    using st by (simp add: startPass_def)
  then have "''foo'' \<notin> set (looseDepsOf (globalSetters an') (cleanup walked))"
    using loose by blast
  ultimately show ?thesis using rf by simp
qed

text \<open>
  Two files with the same identity: \<^verbatim>\<open>shared/foo.lua\<close> sets \<^verbatim>\<open>G\<close> and prints it,
  \<^verbatim>\<open>client/foo.lua\<close> prints \<^verbatim>\<open>G\<close>. The loose dependencies are keyed by identity, and
  the entry of \<^verbatim>\<open>foo\<close>, written last for the client's file, holds the setter of
  \<^verbatim>\<open>G\<close>, which is \<^verbatim>\<open>foo\<close>. The file returned for \<^verbatim>\<open>foo\<close> is the shared one, which
  sets \<^verbatim>\<open>G\<close>: it has a loose dependency on its own identity.
\<close>

theorem self_loose_dependency:
  "computeLooseDeps
     (globalSetters (snd (readAll exampleSelfLoop (startPass DependencyResolution newAnalyzer))))
     (parsedFiles exampleSelfLoop) ''foo'' = Some [''foo'']
   \<and> map_option (\<lambda>r. map (\<lambda>f. (name f, subdirectory f, globalsSet f)) (fst r))
       (resolveDependencies exampleSelfLoop newAnalyzer) = Some [(''foo'', Shared, [''G''])]"
  by code_simp

section \<open>The claims about the order of analysis\<close>

definition requireStatement :: "string \<Rightarrow> statement" where
  "requireStatement nm =
     CallStatement (StringCallExpression (Identifier ''require'')
       (StringLiteral None ([CHR 0x22] @ nm @ [CHR 0x22])))"

definition exampleShadowed :: Input where
  "exampleShadowed =
     exampleInput [FileEntry ''foo.lua'' (ParsedChunk [])] [] [FileEntry ''foo.lua'' (ParsedChunk [])]"

definition exampleRequire :: Input where
  "exampleRequire =
     exampleInput []
       [FileEntry ''a.lua'' (ParsedChunk [requireStatement ''z'']), FileEntry ''z.lua'' (ParsedChunk [])]
       []"

definition exampleShadowedRequire :: Input where
  "exampleShadowedRequire =
     exampleInput [FileEntry ''foo.lua'' (ParsedChunk [])] []
       [FileEntry ''foo.lua'' (ParsedChunk [requireStatement ''zed'']),
        FileEntry ''zed.lua'' (ParsedChunk [])]"

lemma exampleShadowed_returns: "resolveDependencies exampleShadowed newAnalyzer \<noteq> None"
  by code_simp

lemma exampleShadowed_plain: "plainKeys exampleShadowed"
  by code_simp

lemma exampleRequire_plain: "plainKeys exampleRequire"
  by code_simp


lemma exampleRequire_edges:
  "requireEdges (parsedFiles exampleRequire) (readAliases exampleRequire) = [(''z'', ''a'')]"
  by code_simp

lemma acyclic_no_edges: "acyclic {}"
  by (simp add: acyclic_def)

lemma exampleRequire_acyclic: "acyclic (requireGraph exampleRequire)"
  by (simp add: requireGraph_def exampleRequire_edges acyclic_no_edges)



text \<open>
  C2. Every parsed file should appear exactly once in the order that dependency
  resolution returns, also when files of different groups share an identity. The
  order is a sequence of identities, each looked up with \<^verbatim>\<open>getFile\<close>, which returns the
  file of the first group that has the identity. What holds, for a sort that returns
  the keys it is given and for plain keys: when \<^verbatim>\<open>resolveDependencies\<close> returns, the
  identities of the files returned are pairwise different, they are exactly the
  identities in the three file records, and the file returned for an identity is the
  one \<^verbatim>\<open>getFile\<close> finds, with its dependency sets cleared.
\<close>

theorem output_once_per_identity:
  assumes "resolveDependencies inp newAnalyzer = Some (out, an)"
      and "\<forall>ks. set (keyOrder inp ks) = set ks"
      and "plainKeys inp"
  shows "distinct (map name out)
         \<and> set (map name out) = (\<Union>d. fst ` set (parsedFiles inp d))
         \<and> map Some out
             = map (\<lambda>k. map_option clearDependencies (getFile (parsedFiles inp) k)) (map name out)"
  using resolveDependencies_output [OF assms(1)] assms(2) by simp

theorem output_once_per_identity_witness:
  "distinct (map name (fst (the (resolveDependencies exampleShadowed newAnalyzer))))
   \<and> set (map name (fst (the (resolveDependencies exampleShadowed newAnalyzer))))
       = (\<Union>d. fst ` set (parsedFiles exampleShadowed d))"
proof -
  obtain out an where r: "resolveDependencies exampleShadowed newAnalyzer = Some (out, an)"
    using exampleShadowed_returns by fastforce
  have "\<forall>ks. set (keyOrder exampleShadowed ks) = set ks"
    by (simp add: exampleShadowed_def exampleInput_def set_sortKeys)
  from output_once_per_identity [OF r this exampleShadowed_plain] show ?thesis using r by simp
qed

text \<open>
  \<^verbatim>\<open>shared/foo.lua\<close> and \<^verbatim>\<open>client/foo.lua\<close> both parse. The order returned holds the
  shared file alone; the client's file is in the client's record and not in the output.
\<close>

theorem shadowed_file_dropped:
  "map_option (\<lambda>r. map (\<lambda>f. (name f, subdirectory f)) (fst r))
     (resolveDependencies exampleShadowed newAnalyzer) = Some [(''foo'', Shared)]
   \<and> map (\<lambda>e. (fst e, subdirectory (snd e))) (parsedFiles exampleShadowed Client) = [(''foo'', Client)]"
  by code_simp

text \<open>
  C5. If a parsed file A requires a file B and the require graph has no cycle, B should
  come before A in the order returned. The loop works on identities: the requirements
  it looks at for an identity are those of the file that \<^verbatim>\<open>getFile\<close> finds. What holds,
  for a sort that returns the keys it is given and for plain keys: \<open>requireGraph\<close> has
  an edge \<open>(b, a)\<close> when the file found for the identity \<open>a\<close> requires a name that
  resolves to the identity \<open>b\<close>; if that graph has no cycle, \<^verbatim>\<open>resolveDependencies\<close>
  returns, and for every edge \<open>(b, a)\<close> both identities are in the order returned,
  \<open>b\<close> before \<open>a\<close>.
\<close>

theorem required_identity_precedes:
  assumes "acyclic (requireGraph inp)" and "(b, a) \<in> requireGraph inp"
      and "\<forall>ks. set (keyOrder inp ks) = set ks"
      and "plainKeys inp"
  shows "\<exists>out an. resolveDependencies inp newAnalyzer = Some (out, an)
           \<and> precedes b a (map name out)"
proof -
  obtain out an where r: "resolveDependencies inp newAnalyzer = Some (out, an)"
    using resolveDependencies_terminates [OF assms(1)] by blast
  from resolveDependencies_precedes [OF r _ assms(2)] assms(3) r show ?thesis by blast
qed

theorem required_identity_precedes_witness:
  "precedes ''z'' ''a'' (map name (fst (the (resolveDependencies exampleRequire newAnalyzer))))"
proof -
  have "(''z'', ''a'') \<in> requireGraph exampleRequire"
    by (simp add: requireGraph_def exampleRequire_edges)
  moreover have "\<forall>ks. set (keyOrder exampleRequire ks) = set ks"
    by (simp add: exampleRequire_def exampleInput_def set_sortKeys)
  ultimately show ?thesis
    using required_identity_precedes [OF exampleRequire_acyclic _ _ exampleRequire_plain]
    by fastforce
qed

text \<open>
  \<^verbatim>\<open>client/foo.lua\<close> requires \<^verbatim>\<open>zed\<close>, which resolves to \<^verbatim>\<open>client/zed.lua\<close>, and
  nothing requires anything else. The file found for \<^verbatim>\<open>foo\<close> is \<^verbatim>\<open>shared/foo.lua\<close>,
  which requires nothing, so \<^verbatim>\<open>foo\<close> is finalized first and \<^verbatim>\<open>zed\<close> after it.
\<close>

theorem shadowed_requirement_ignored:
  "map (\<lambda>e. (fst e, fileDependencies (snd e))) (parsedFiles exampleShadowedRequire Client)
     = [(''foo'', [''zed'']), (''zed'', [])]
   \<and> getDependencyIdentifier (parsedFiles exampleShadowedRequire)
       (readAliases exampleShadowedRequire) ''zed'' = Some ''zed''
   \<and> map_option (\<lambda>r. map (\<lambda>f. (name f, subdirectory f)) (fst r))
       (resolveDependencies exampleShadowedRequire newAnalyzer)
       = Some [(''foo'', Shared), (''zed'', Client)]"
  by code_simp



section \<open>The claims about the second pass\<close>

definition setsX :: "statement list" where
  "setsX = [AssignmentStatement [Identifier ''X''] [NumericLiteral ''1'']]"

definition setsToString :: "statement list" where
  "setsToString = [AssignmentStatement [Identifier ''toString''] [NumericLiteral ''1'']]"

lemma plain_name_global_write:
  "map_option globalsSet (processFile DependencyResolution (newLuaFile setsX Shared ''main''))
     = Some [''X'']
   \<and> assignTypeOf (blocks (newLuaFile setsX Shared ''main'')) 0 (Identifier ''X'') = T_global
   \<and> map_option (\<lambda>f. elements (blocks f ! 0))
       (processFile TypeResolution (newLuaFile setsX Shared ''main''))
       = Some [AssignmentElement \<lparr>assignTypes = [T_global], lhs = [Identifier ''X''],
                                  rhs = [Some (NumericLiteral ''1'')]\<rparr>]"
  by code_simp

text \<open>
  C7. An identifier target that is bound nowhere in the scope chain should be tagged
  as a global write and recorded on the file. For the chunk \<^verbatim>\<open>toString = 1\<close> nothing
  binds \<^verbatim>\<open>toString\<close>, but \<^verbatim>\<open>getLocal\<close> finds the function that \<^verbatim>\<open>locals\<close> inherits
  under that name: the target is tagged as the reassignment of a local, the dependency
  pass records no global write, and the second pass throws when it pushes to the
  history of that value.
\<close>

theorem inherited_name_not_global_write:
  "map_option globalsSet (processFile DependencyResolution (newLuaFile setsToString Shared ''main''))
     = Some []
   \<and> assignTypeOf (blocks (newLuaFile setsToString Shared ''main'')) 0 (Identifier ''toString'')
       = T_local_reassign
   \<and> processFile TypeResolution (newLuaFile setsToString Shared ''main'') = None"
  by code_simp



section \<open>A file that fails is left out and nothing else changes\<close>

text \<open>
  The entries of a directory without the files that cannot be read or parsed, and an
  input without them.
\<close>

fun failed :: "FileSource \<Rightarrow> bool" where
  "failed (ReadFailure e) = True"
| "failed (ParseFailure e) = True"
| "failed (ParsedChunk tree) = False"

fun withoutFailed :: "Dirent \<Rightarrow> Dirent list" where
  "withoutFailed (FileEntry n src) = (if failed src then [] else [FileEntry n src])"
| "withoutFailed (DirectoryEntry n es err) = [DirectoryEntry n (concat (map withoutFailed es)) err]"
| "withoutFailed (OtherEntry n) = [OtherEntry n]"


definition sameButErrors :: "Analyzer \<Rightarrow> Analyzer \<Rightarrow> bool" where
  "sameButErrors an an' =
     (Analyzer.pass an = Analyzer.pass an' \<and> globalSetters an = globalSetters an'
      \<and> fileAliases an = fileAliases an')"

definition withoutFailedFrame :: "DirFrame \<Rightarrow> DirFrame" where
  "withoutFailedFrame fr = (fst fr, concat (map withoutFailed (fst (snd fr))), snd (snd fr))"

definition sameRead :: "ReadState \<Rightarrow> ReadState \<Rightarrow> bool" where
  "sameRead st st' =
     (fst st' = map withoutFailedFrame (fst st) \<and> fst (snd st') = fst (snd st)
      \<and> sameButErrors (snd (snd st)) (snd (snd st')))"

lemma sameButErrors_refl [simp]: "sameButErrors an an"
  by (simp add: sameButErrors_def)

lemma sameButErrors_errors [simp]:
  "sameButErrors (an\<lparr>errors := es\<rparr>) an' = sameButErrors an an'"
  "sameButErrors an (an'\<lparr>errors := es\<rparr>) = sameButErrors an an'"
  by (simp_all add: sameButErrors_def)




lemma sameReadI:
  "stk' = map withoutFailedFrame stk \<Longrightarrow> fm' = fm \<Longrightarrow> sameButErrors an an'
   \<Longrightarrow> sameRead (stk, fm, an) (stk', fm', an')"
  by (simp add: sameRead_def)















end
